theory Spec2Isabelle
  imports Main
begin

text \<open>
  A model of \<^verbatim>\<open>smart_web_scraper.py\<close>, the class \<^verbatim>\<open>SmartWebScraper\<close>: a crawler that starts
  from one seed URL, fetches pages with a static HTTP request and, when a page looks
  script-driven or the request fails, with a headless browser, writes the text of each
  page to a CSV file and follows the links that stay on the seed's host. The definitions
  come first, function by function and with the line numbers of the source; the
  properties of the program follow.
\<close>

section \<open>Python strings\<close>

text \<open>
  A Python \<^verbatim>\<open>str\<close> is modelled as a \<^typ>\<open>string\<close>: one \<^typ>\<open>char\<close> per code point, so the
  model covers the strings whose code points are below 256. Exceptions are values of
  \<open>py_error\<close>; a function that can raise returns \<open>py_error + 'a\<close> with \<open>Inl\<close> for the raise.
\<close>

datatype py_error = ValueError | ImportError | OSError | IndexError

definition startswith :: "string \<Rightarrow> string \<Rightarrow> bool" where
  "startswith s p = (take (length p) s = p)"

text \<open>\<^verbatim>\<open>str.isspace\<close>, which is also the class of the regular expression's whitespace
  escape and of \<^verbatim>\<open>str.strip()\<close>: the code points 9-13, 28-32, 0x85 and 0xA0.\<close>

definition py_isspace :: "char \<Rightarrow> bool" where
  "py_isspace c = (c \<in> set [CHR 0x09, CHR 0x0A, CHR 0x0B, CHR 0x0C, CHR 0x0D,
                              CHR 0x1C, CHR 0x1D, CHR 0x1E, CHR 0x1F, CHR 0x20,
                              CHR 0x85, CHR 0xA0])"

text \<open>\<^verbatim>\<open>re.sub(r'\s+', ' ', text)\<close>: every maximal run of whitespace becomes one space.\<close>

function re_sub_ws :: "string \<Rightarrow> string" where
  "re_sub_ws [] = []"
| "re_sub_ws (c # cs) =
     (if py_isspace c then CHR '' '' # re_sub_ws (dropWhile py_isspace cs)
      else c # re_sub_ws cs)"
  by pat_completeness auto
termination
  by (relation "measure length") (auto simp: less_Suc_eq_le length_dropWhile_le)

text \<open>\<^verbatim>\<open>str.strip()\<close> without arguments.\<close>

definition py_strip :: "string \<Rightarrow> string" where
  "py_strip s = rev (dropWhile py_isspace (rev (dropWhile py_isspace s)))"

text \<open>\<^verbatim>\<open>s.find(c)\<close>, \<^verbatim>\<open>s.find(c, start)\<close> and \<^verbatim>\<open>s.rfind(c)\<close>; \<open>None\<close> stands for -1.\<close>

definition py_find :: "char \<Rightarrow> string \<Rightarrow> nat option" where
  "py_find c s = (if c \<in> set s then Some (length (takeWhile (\<lambda>x. x \<noteq> c) s)) else None)"

definition py_find_from :: "char \<Rightarrow> string \<Rightarrow> nat \<Rightarrow> nat option" where
  "py_find_from c s start = map_option (\<lambda>j. start + j) (py_find c (drop start s))"

definition py_rfind :: "char \<Rightarrow> string \<Rightarrow> nat option" where
  "py_rfind c s =
     (if c \<in> set s then Some (length s - 1 - length (takeWhile (\<lambda>x. x \<noteq> c) (rev s)))
      else None)"

text \<open>\<^verbatim>\<open>s.split(c, 1)\<close> for a string that holds \<open>c\<close>: the text before the first \<open>c\<close> and
  the text after it.\<close>

definition split_first :: "char \<Rightarrow> string \<Rightarrow> string \<times> string" where
  "split_first c s = (takeWhile (\<lambda>x. x \<noteq> c) s, drop 1 (dropWhile (\<lambda>x. x \<noteq> c) s))"

text \<open>\<^verbatim>\<open>s.split(c)\<close> and \<^verbatim>\<open>sep.join(parts)\<close>.\<close>

fun py_split :: "char \<Rightarrow> string \<Rightarrow> string list" where
  "py_split c [] = [[]]"
| "py_split c (x # xs) =
     (if x = c then [] # py_split c xs
      else (case py_split c xs of
              [] \<Rightarrow> [[x]]
            | y # ys \<Rightarrow> (x # y) # ys))"

fun py_join :: "string \<Rightarrow> string list \<Rightarrow> string" where
  "py_join sep [] = []"
| "py_join sep [x] = x"
| "py_join sep (x # y # ys) = x @ sep @ py_join sep (y # ys)"

section \<open>The URL functions of the standard library\<close>

text \<open>
  \<^verbatim>\<open>normalize_url\<close> and \<^verbatim>\<open>is_same_domain\<close> call \<^verbatim>\<open>urllib.parse.urljoin\<close> and
  \<^verbatim>\<open>urllib.parse.urlparse\<close>. The definitions below follow \<^verbatim>\<open>urllib/parse.py\<close> of CPython 3.11
  function by function (\<^verbatim>\<open>urlsplit\<close>, \<^verbatim>\<open>_splitnetloc\<close>, \<^verbatim>\<open>_check_bracketed_host\<close>,
  \<^verbatim>\<open>_splitparams\<close>, \<^verbatim>\<open>urlparse\<close>, \<^verbatim>\<open>urlunsplit\<close>, \<^verbatim>\<open>urlunparse\<close>, \<^verbatim>\<open>urljoin\<close>), with
  \<^verbatim>\<open>allow_fragments\<close> at its default. Two library checks are not spelled out:
  \<^item> \<^verbatim>\<open>ipaddress.ip_address\<close>, which validates a bracketed host, is the parameter
    \<open>ip_address_v6\<close> (true when the text is an IPv6 address);
  \<^item> \<^verbatim>\<open>_checknetloc\<close> only raises when NFKC normalisation of a non-ASCII netloc yields one
    of the characters \<^verbatim>\<open>/?#@:\<close>, which no code point below 256 does.
\<close>

definition uses_relative :: "string list" where
  "uses_relative = [[], ''ftp'', ''http'', ''gopher'', ''nntp'', ''imap'',
                    ''wais'', ''file'', ''https'', ''shttp'', ''mms'',
                    ''prospero'', ''rtsp'', ''rtsps'', ''rtspu'', ''sftp'',
                    ''svn'', ''svn+ssh'', ''ws'', ''wss'']"

definition uses_netloc :: "string list" where
  "uses_netloc = [[], ''ftp'', ''http'', ''gopher'', ''nntp'', ''telnet'',
                  ''imap'', ''wais'', ''file'', ''mms'', ''https'', ''shttp'',
                  ''snews'', ''prospero'', ''rtsp'', ''rtsps'', ''rtspu'', ''rsync'',
                  ''svn'', ''svn+ssh'', ''sftp'', ''nfs'', ''git'', ''git+ssh'',
                  ''ws'', ''wss'']"

definition uses_params :: "string list" where
  "uses_params = [[], ''ftp'', ''hdl'', ''prospero'', ''http'', ''imap'',
                  ''https'', ''shttp'', ''rtsp'', ''rtsps'', ''rtspu'', ''sip'',
                  ''sips'', ''mms'', ''sftp'', ''tel'']"

definition ascii_lowercase :: string where
  "ascii_lowercase = ''abcdefghijklmnopqrstuvwxyz''"

definition ascii_uppercase :: string where
  "ascii_uppercase = ''ABCDEFGHIJKLMNOPQRSTUVWXYZ''"

definition scheme_chars :: string where
  "scheme_chars = ascii_lowercase @ ascii_uppercase @ ''0123456789'' @ ''+-.''"

text \<open>\<^verbatim>\<open>str.lower\<close> on the characters of a scheme, which are all ASCII.\<close>

definition lower_char :: "char \<Rightarrow> char" where
  "lower_char c = (case map_of (zip ascii_uppercase ascii_lowercase) c of
                     None \<Rightarrow> c
                   | Some l \<Rightarrow> l)"

definition c0_control_or_space :: "char \<Rightarrow> bool" where
  "c0_control_or_space c = ((of_char c :: nat) \<le> 32)"

definition unsafe_url_byte :: "char \<Rightarrow> bool" where
  "unsafe_url_byte c = (c \<in> set [CHR 0x09, CHR 0x0D, CHR 0x0A])"

definition splitnetloc :: "string \<Rightarrow> nat \<Rightarrow> string \<times> string" where
  "splitnetloc url start =
     (let delim = length (takeWhile (\<lambda>c. c \<notin> set ''/?#'') (drop start url)) + start
      in (take (delim - start) (drop start url), drop delim url))"

text \<open>The IPvFuture pattern of \<^verbatim>\<open>_check_bracketed_host\<close>: the letter v, one or more
  hexadecimal digits, a dot, and one or more characters other than a newline.\<close>

definition ipvfuture_ok :: "string \<Rightarrow> bool" where
  "ipvfuture_ok hostname =
     (let h = drop 1 hostname;
          ds = takeWhile (\<lambda>c. c \<in> set ''abcdefABCDEF0123456789'') h;
          r = dropWhile (\<lambda>c. c \<in> set ''abcdefABCDEF0123456789'') h
      in ds \<noteq> [] \<and> take 1 r = ''.'' \<and> drop 1 r \<noteq> [] \<and> CHR 0x0A \<notin> set (drop 1 r))"

definition check_bracketed_host :: "(string \<Rightarrow> bool) \<Rightarrow> string \<Rightarrow> bool" where
  "check_bracketed_host ip_address_v6 hostname =
     (if startswith hostname ''v'' then ipvfuture_ok hostname
      else ip_address_v6 hostname)"

definition urlsplit ::
  "(string \<Rightarrow> bool) \<Rightarrow> string \<Rightarrow> string \<Rightarrow>
     py_error + (string \<times> string \<times> string \<times> string \<times> string)" where
  "urlsplit ip_address_v6 url0 scheme0 =
     (let url1 = filter (\<lambda>c. \<not> unsafe_url_byte c) (dropWhile c0_control_or_space url0);
          scheme1 = filter (\<lambda>c. \<not> unsafe_url_byte c)
                      (rev (dropWhile c0_control_or_space
                         (rev (dropWhile c0_control_or_space scheme0))));
          (sch, url2) =
            (case py_find CHR '':'' url1 of
               None \<Rightarrow> (scheme1, url1)
             | Some i \<Rightarrow>
                 if 0 < i \<and> hd url1 \<in> set (ascii_lowercase @ ascii_uppercase)
                    \<and> list_all (\<lambda>c. c \<in> set scheme_chars) (take i url1)
                 then (map lower_char (take i url1), drop (i + 1) url1)
                 else (scheme1, url1));
          (nl, url3) = (if take 2 url2 = ''//'' then splitnetloc url2 2 else ([], url2));
          (url4, frag) =
            (if CHR ''#'' \<in> set url3 then split_first CHR ''#'' url3 else (url3, []));
          (url5, qry) =
            (if CHR ''?'' \<in> set url4 then split_first CHR ''?'' url4 else (url4, []))
      in if take 2 url2 = ''//''
            \<and> ((CHR ''['' \<in> set nl \<and> CHR '']'' \<notin> set nl)
               \<or> (CHR '']'' \<in> set nl \<and> CHR ''['' \<notin> set nl))
         then Inl ValueError
         else if take 2 url2 = ''//'' \<and> CHR ''['' \<in> set nl \<and> CHR '']'' \<in> set nl
                 \<and> \<not> check_bracketed_host ip_address_v6
                       (takeWhile (\<lambda>c. c \<noteq> CHR '']'')
                          (drop 1 (dropWhile (\<lambda>c. c \<noteq> CHR ''['') nl)))
         then Inl ValueError
         else Inr (sch, nl, url5, qry, frag))"

definition splitparams :: "string \<Rightarrow> string \<times> string" where
  "splitparams url =
     (if CHR ''/'' \<in> set url then
        (case py_find_from CHR '';'' url (the (py_rfind CHR ''/'' url)) of
           None \<Rightarrow> (url, [])
         | Some i \<Rightarrow> (take i url, drop (i + 1) url))
      else
        (case py_find CHR '';'' url of
           None \<Rightarrow> (butlast url, url)
         | Some i \<Rightarrow> (take i url, drop (i + 1) url)))"

record ParseResult =
  scheme :: string
  netloc :: string
  path :: string
  params :: string
  query :: string
  fragment :: string

definition urlparse :: "(string \<Rightarrow> bool) \<Rightarrow> string \<Rightarrow> string \<Rightarrow> py_error + ParseResult" where
  "urlparse ip_address_v6 url0 scheme0 =
     (case urlsplit ip_address_v6 url0 scheme0 of
        Inl e \<Rightarrow> Inl e
      | Inr (sch, nl, url, q, f) \<Rightarrow>
          (let (url', ps) =
                 (if sch \<in> set uses_params \<and> CHR '';'' \<in> set url then splitparams url
                  else (url, []))
           in Inr \<lparr>scheme = sch, netloc = nl, path = url', params = ps,
                    query = q, fragment = f\<rparr>))"

definition urlunsplit :: "string \<Rightarrow> string \<Rightarrow> string \<Rightarrow> string \<Rightarrow> string \<Rightarrow> string" where
  "urlunsplit sch nl url0 q f =
     (let url1 = (if nl \<noteq> [] \<or> (sch \<noteq> [] \<and> sch \<in> set uses_netloc) \<or> take 2 url0 = ''//''
                  then ''//'' @ nl
                       @ (if url0 \<noteq> [] \<and> take 1 url0 \<noteq> ''/'' then ''/'' @ url0 else url0)
                  else url0);
          url2 = (if sch \<noteq> [] then sch @ '':'' @ url1 else url1);
          url3 = (if q \<noteq> [] then url2 @ ''?'' @ q else url2)
      in if f \<noteq> [] then url3 @ ''#'' @ f else url3)"

definition urlunparse :: "ParseResult \<Rightarrow> string" where
  "urlunparse p =
     urlunsplit (scheme p) (netloc p)
       (if params p \<noteq> [] then path p @ '';'' @ params p else path p)
       (query p) (fragment p)"

text \<open>The loop of \<^verbatim>\<open>urljoin\<close> over the path segments: \<^verbatim>\<open>..\<close> pops the resolved path
  (nothing happens when it is empty), \<^verbatim>\<open>.\<close> is dropped, any other segment is appended.\<close>

fun resolve_segments :: "string list \<Rightarrow> string list \<Rightarrow> string list" where
  "resolve_segments resolved_path [] = resolved_path"
| "resolve_segments resolved_path (seg # segs) =
     (if seg = ''..'' then resolve_segments (butlast resolved_path) segs
      else if seg = ''.'' then resolve_segments resolved_path segs
      else resolve_segments (resolved_path @ [seg]) segs)"

text \<open>\<^verbatim>\<open>segments[1:-1] = filter(None, segments[1:-1])\<close>.\<close>

definition filter_inner :: "string list \<Rightarrow> string list" where
  "filter_inner segments =
     (if length segments < 2 then segments
      else hd segments # filter (\<lambda>s. s \<noteq> []) (butlast (tl segments)) @ [last segments])"

text \<open>The components \<^verbatim>\<open>urljoin\<close> hands to \<^verbatim>\<open>urlunparse\<close> once the schemes agree: the
  reference's own when it has a netloc, the base's path when its path and parameters
  are empty, the merged path otherwise.\<close>

definition urljoin_components :: "ParseResult \<Rightarrow> ParseResult \<Rightarrow> ParseResult" where
  "urljoin_components b u =
     (if scheme u \<in> set uses_netloc \<and> netloc u \<noteq> [] then u
      else
        (let nl = (if scheme u \<in> set uses_netloc then netloc b else netloc u)
         in if path u = [] \<and> params u = [] then
              u\<lparr>netloc := nl, path := path b, params := params b,
                query := (if query u = [] then query b else query u)\<rparr>
            else
              (let base_parts0 = py_split CHR ''/'' (path b);
                   base_parts = (if last base_parts0 \<noteq> [] then butlast base_parts0
                                 else base_parts0);
                   segments =
                     (if take 1 (path u) = ''/'' then py_split CHR ''/'' (path u)
                      else filter_inner (base_parts @ py_split CHR ''/'' (path u)));
                   resolved0 = resolve_segments [] segments;
                   resolved_path =
                     (if last segments \<in> set [''.'', ''..''] then resolved0 @ [[]]
                      else resolved0);
                   joined = py_join ''/'' resolved_path
               in u\<lparr>netloc := nl, path := (if joined = [] then ''/'' else joined)\<rparr>)))"

definition urljoin :: "(string \<Rightarrow> bool) \<Rightarrow> string \<Rightarrow> string \<Rightarrow> py_error + string" where
  "urljoin ip_address_v6 base url =
     (if base = [] then Inr url
      else if url = [] then Inr base
      else
        (case urlparse ip_address_v6 base [] of
           Inl e \<Rightarrow> Inl e
         | Inr b \<Rightarrow>
             (case urlparse ip_address_v6 url (scheme b) of
                Inl e \<Rightarrow> Inl e
              | Inr u \<Rightarrow>
                  if scheme u \<noteq> scheme b \<or> scheme u \<notin> set uses_relative then Inr url
                  else Inr (urlunparse (urljoin_components b u)))))"

section \<open>The scraper and its collaborators\<close>

text \<open>
  The HTTP client, the HTML parser, the robots parser, the browser driver and the CSV
  file are outside the program. Their answers are the fields of an \<open>env\<close>; an answer that
  may change from call to call takes the number of effects performed so far. The
  effects the program performs are recorded, in order, in the field \<open>trace\<close> of the
  scraper's state.
\<close>

datatype http_result = Response int string | Request_exception

datatype event =
    Http_get string
  | Webdriver_start bool
  | Driver_get string
  | Driver_quit
  | Csv_row string string

datatype webdriver = Chrome

record env =
  ip_address_v6 :: "string \<Rightarrow> bool"
  soup_find_all_a_href :: "string \<Rightarrow> string list"
  soup_get_text :: "string \<Rightarrow> string"
  detect_javascript_content :: "string \<Rightarrow> bool"
  requests_get :: "nat \<Rightarrow> string \<Rightarrow> http_result"
  selenium_importable :: bool
  webdriver_Chrome :: "nat \<Rightarrow> bool"
  driver_page_source :: "nat \<Rightarrow> string \<Rightarrow> string option"
  robots_read_ok :: bool
  robot_parser_can_fetch :: "string \<Rightarrow> bool"
  csv_writerow_ok :: "nat \<Rightarrow> bool"

text \<open>
  \<^item> \<open>ip_address_v6\<close>: whether \<^verbatim>\<open>ipaddress.ip_address\<close> reads a text as an IPv6 address
    (used by \<^verbatim>\<open>urlsplit\<close> for a host in brackets);
  \<^item> \<open>soup_find_all_a_href\<close>: the \<^verbatim>\<open>href\<close> values of \<^verbatim>\<open>soup.find_all('a', href=True)\<close>, in
    document order;
  \<^item> \<open>soup_get_text\<close>: \<^verbatim>\<open>soup.get_text(separator=' ')\<close> after the script, style, noscript,
    iframe, svg and img elements are decomposed;
  \<^item> \<open>detect_javascript_content\<close>: the answer of the classifier of lines 98-143; its
    regular expressions and its use of the HTML parser are not spelled out, and no
    property below depends on which pages it selects;
  \<^item> \<open>requests_get\<close>: the response of \<^verbatim>\<open>requests.get\<close> (status code and text), or the
    exception it raises;
  \<^item> \<open>selenium_importable\<close>: whether \<^verbatim>\<open>from selenium import webdriver\<close> succeeds;
  \<^item> \<open>webdriver_Chrome\<close>: whether \<^verbatim>\<open>webdriver.Chrome(options=options)\<close> returns a driver;
  \<^item> \<open>driver_page_source\<close>: \<^verbatim>\<open>driver.page_source\<close> after \<^verbatim>\<open>driver.get(url)\<close>, \<open>None\<close> when
    either raises;
  \<^item> \<open>robots_read_ok\<close>: whether \<^verbatim>\<open>robot_parser.read()\<close> returns without raising;
  \<^item> \<open>robot_parser_can_fetch\<close>: \<^verbatim>\<open>robot_parser.can_fetch(user_agent, url)\<close>;
  \<^item> \<open>csv_writerow_ok\<close>: whether opening the output file and writing a row succeeds.
\<close>

text \<open>The attributes of a \<^verbatim>\<open>SmartWebScraper\<close> that the crawl reads or writes, and the
  trace. (\<^verbatim>\<open>output_file\<close>, \<^verbatim>\<open>delay\<close> and \<^verbatim>\<open>headers\<close> are set once and only passed on to the
  collaborators; the politeness sleep has no effect on the state.)\<close>

record scraper =
  base_url :: string
  respect_robots :: bool
  visited_urls :: "string set"
  queue :: "string list"
  robot_parser_completed :: bool
  driver :: "webdriver option"
  tried_selenium :: bool
  trace :: "event list"

text \<open>\<^verbatim>\<open>__init__\<close> (lines 16-55). \<^verbatim>\<open>urlparse(base_url)\<close> on line 37 and the header row
  on lines 53-55 can raise.\<close>

definition init :: "env \<Rightarrow> string \<Rightarrow> bool \<Rightarrow> py_error + scraper" where
  "init w base respect =
     (case urlparse (ip_address_v6 w) base [] of
        Inl e \<Rightarrow> Inl e
      | Inr parsed_url \<Rightarrow>
          if csv_writerow_ok w 0 then
            Inr \<lparr>base_url = base, respect_robots = respect, visited_urls = {},
                 queue = [base], robot_parser_completed = robots_read_ok w,
                 driver = None, tried_selenium = False,
                 trace = [Csv_row ''URL'' ''Content'']\<rparr>
          else Inl OSError)"

text \<open>\<^verbatim>\<open>initialize_selenium\<close> (lines 57-76).\<close>

definition initialize_selenium :: "env \<Rightarrow> scraper \<Rightarrow> (py_error + bool) \<times> scraper" where
  "initialize_selenium w st =
     (if driver st \<noteq> None then (Inr True, st)
      else if \<not> selenium_importable w then (Inl ImportError, st)
      else if webdriver_Chrome w (length (trace st)) then
        (Inr True, st\<lparr>driver := Some Chrome, trace := trace st @ [Webdriver_start True]\<rparr>)
      else (Inr False, st\<lparr>trace := trace st @ [Webdriver_start False]\<rparr>))"

text \<open>\<^verbatim>\<open>can_fetch\<close> (lines 78-83).\<close>

definition can_fetch :: "env \<Rightarrow> scraper \<Rightarrow> string \<Rightarrow> bool" where
  "can_fetch w st url = (if \<not> respect_robots st then True else robot_parser_can_fetch w url)"

text \<open>\<^verbatim>\<open>is_same_domain\<close> (lines 85-89).\<close>

definition is_same_domain :: "env \<Rightarrow> scraper \<Rightarrow> string \<Rightarrow> py_error + bool" where
  "is_same_domain w st url =
     (case urlparse (ip_address_v6 w) (base_url st) [] of
        Inl e \<Rightarrow> Inl e
      | Inr b \<Rightarrow>
          (case urlparse (ip_address_v6 w) url [] of
             Inl e \<Rightarrow> Inl e
           | Inr u \<Rightarrow> Inr (netloc b = netloc u)))"

text \<open>\<^verbatim>\<open>normalize_url\<close> (lines 92-96).\<close>

definition normalize_url :: "env \<Rightarrow> scraper \<Rightarrow> string \<Rightarrow> py_error + string" where
  "normalize_url w st url =
     (if startswith url ''http'' then Inr url
      else urljoin (ip_address_v6 w) (base_url st) url)"

text \<open>\<^verbatim>\<open>get_page_content\<close> (lines 145-189). The handler of lines 176-189 comes first: it
  runs when \<^verbatim>\<open>requests.get\<close> raises, and also when \<^verbatim>\<open>initialize_selenium\<close> raises inside
  the \<^verbatim>\<open>try\<close> block (line 158).\<close>

definition get_page_content_except ::
  "env \<Rightarrow> string \<Rightarrow> scraper \<Rightarrow> (py_error + string option) \<times> scraper" where
  "get_page_content_except w url st =
     (if \<not> tried_selenium st then
        (case initialize_selenium w st of
           (r, st1) \<Rightarrow>
             (case r of
                Inl e \<Rightarrow> (Inl e, st1)
              | Inr ok \<Rightarrow>
                  if ok then
                    (let st2 = st1\<lparr>tried_selenium := True\<rparr>;
                         st3 = st2\<lparr>trace := trace st2 @ [Driver_get url]\<rparr>
                     in case driver_page_source w (length (trace st2)) url of
                          Some page_source \<Rightarrow> (Inr (Some page_source), st3)
                        | None \<Rightarrow> (Inr None, st3))
                  else (Inr None, st1)))
      else (Inr None, st))"

definition get_page_content ::
  "env \<Rightarrow> string \<Rightarrow> scraper \<Rightarrow> (py_error + string option) \<times> scraper" where
  "get_page_content w url st =
     (let st1 = st\<lparr>trace := trace st @ [Http_get url]\<rparr>
      in case requests_get w (length (trace st)) url of
           Request_exception \<Rightarrow> get_page_content_except w url st1
         | Response status_code html_content \<Rightarrow>
             if status_code = 200 then
               if detect_javascript_content w html_content then
                 if \<not> tried_selenium st1 then
                   (case initialize_selenium w st1 of
                      (r, st2) \<Rightarrow>
                        (case r of
                           Inl e \<Rightarrow> get_page_content_except w url st2
                         | Inr ok \<Rightarrow>
                             if ok then
                               (let st3 = st2\<lparr>tried_selenium := True\<rparr>;
                                    st4 = st3\<lparr>trace := trace st3 @ [Driver_get url]\<rparr>
                                in case driver_page_source w (length (trace st3)) url of
                                     Some page_source \<Rightarrow> (Inr (Some page_source), st4)
                                   | None \<Rightarrow> (Inr (Some html_content), st4))
                             else (Inr (Some html_content), st2)))
                 else (Inr (Some html_content), st1)
               else (Inr (Some html_content), st1)
             else (Inr None, st1))"

text \<open>\<^verbatim>\<open>extract_text\<close> (lines 191-205).\<close>

definition extract_text :: "env \<Rightarrow> string option \<Rightarrow> string" where
  "extract_text w html_content =
     (case html_content of
        None \<Rightarrow> []
      | Some html \<Rightarrow>
          if html = [] then []
          else py_strip (re_sub_ws (soup_get_text w html)))"

text \<open>\<^verbatim>\<open>extract_links\<close> (lines 207-226); \<open>extract_links_loop\<close> is the loop of lines
  215-224, with the list \<^verbatim>\<open>links\<close> built so far.\<close>

definition skip_href :: "string \<Rightarrow> bool" where
  "skip_href href =
     (startswith href ''#'' \<or> startswith href ''javascript:''
      \<or> startswith href ''mailto:'' \<or> startswith href ''tel:'')"

fun extract_links_loop ::
  "env \<Rightarrow> scraper \<Rightarrow> string list \<Rightarrow> string list \<Rightarrow> py_error + string list" where
  "extract_links_loop w st [] links = Inr links"
| "extract_links_loop w st (href # hrefs) links =
     (if skip_href href then extract_links_loop w st hrefs links
      else
        (case normalize_url w st href of
           Inl e \<Rightarrow> Inl e
         | Inr full_url \<Rightarrow>
             (case is_same_domain w st full_url of
                Inl e \<Rightarrow> Inl e
              | Inr same \<Rightarrow>
                  if same then extract_links_loop w st hrefs (links @ [full_url])
                  else extract_links_loop w st hrefs links)))"

definition extract_links :: "env \<Rightarrow> scraper \<Rightarrow> string option \<Rightarrow> py_error + string list" where
  "extract_links w st html_content =
     (case html_content of
        None \<Rightarrow> Inr []
      | Some html \<Rightarrow>
          if html = [] then Inr []
          else extract_links_loop w st (soup_find_all_a_href w html) [])"

text \<open>\<^verbatim>\<open>save_to_csv\<close> (lines 228-232).\<close>

definition save_to_csv ::
  "env \<Rightarrow> string \<Rightarrow> string \<Rightarrow> scraper \<Rightarrow> (py_error + unit) \<times> scraper" where
  "save_to_csv w url content st =
     (if csv_writerow_ok w (length (trace st)) then
        (Inr (), st\<lparr>trace := trace st @ [Csv_row url content]\<rparr>)
      else (Inl OSError, st))"

text \<open>\<^verbatim>\<open>scrape\<close> (lines 234-280). \<open>skip_url\<close> is the test of line 249, \<open>enqueue_links\<close>
  the loop of lines 267-269, \<open>scrape_iteration\<close> one pass through the body of the
  \<^verbatim>\<open>while\<close> loop (lines 246-272) with the local variable \<^verbatim>\<open>page_count\<close>.\<close>

definition skip_url :: "env \<Rightarrow> scraper \<Rightarrow> string \<Rightarrow> bool" where
  "skip_url w st url =
     (url \<in> visited_urls st \<or> (robot_parser_completed st \<and> \<not> can_fetch w st url))"

fun enqueue_links :: "string list \<Rightarrow> scraper \<Rightarrow> scraper" where
  "enqueue_links [] st = st"
| "enqueue_links (link # links) st =
     enqueue_links links
       (if link \<notin> visited_urls st \<and> link \<notin> set (queue st)
        then st\<lparr>queue := queue st @ [link]\<rparr> else st)"

definition scrape_iteration :: "env \<Rightarrow> int \<times> scraper \<Rightarrow> (py_error + int) \<times> scraper" where
  "scrape_iteration w s =
     (case s of (page_count, st) \<Rightarrow>
       (case queue st of
          [] \<Rightarrow> (Inl IndexError, st)
        | url # rest \<Rightarrow>
            (let st1 = st\<lparr>queue := rest\<rparr>
             in if skip_url w st1 url then (Inr page_count, st1)
                else
                  (case get_page_content w url (st1\<lparr>visited_urls := insert url (visited_urls st1)\<rparr>) of
                     (r, st3) \<Rightarrow>
                       (case r of
                          Inl e \<Rightarrow> (Inl e, st3)
                        | Inr html_content \<Rightarrow>
                            if html_content \<noteq> None \<and> html_content \<noteq> Some [] then
                              (case save_to_csv w url (extract_text w html_content) st3 of
                                 (r4, st4) \<Rightarrow>
                                   (case r4 of
                                      Inl e \<Rightarrow> (Inl e, st4)
                                    | Inr u \<Rightarrow>
                                        (case extract_links w st4 html_content of
                                           Inl e \<Rightarrow> (Inl e, st4)
                                         | Inr links \<Rightarrow>
                                             (Inr (page_count + 1), enqueue_links links st4))))
                            else (Inr (page_count + 1), st3))))))"

text \<open>
  The \<^verbatim>\<open>while\<close> loop may run forever (no page budget, and a site that keeps producing
  new links), so \<open>scrape_loop\<close> takes the number of iterations it may perform and says
  how it stopped. \<open>scrape\<close> adds the \<^verbatim>\<open>finally\<close> block of lines 274-280; it is \<open>None\<close>
  when the loop did not leave within the given number of iterations.
\<close>

datatype loop_exit =
    Frontier_exhausted
  | Budget_reached
  | Error_propagated py_error
  | Still_running

definition loop_condition :: "int option \<Rightarrow> int \<times> scraper \<Rightarrow> bool" where
  "loop_condition max_pages s =
     (queue (snd s) \<noteq> [] \<and> (case max_pages of None \<Rightarrow> True | Some m \<Rightarrow> fst s < m))"

definition loop_left :: "int \<times> scraper \<Rightarrow> loop_exit \<times> int \<times> scraper" where
  "loop_left s = (if queue (snd s) = [] then Frontier_exhausted else Budget_reached, s)"

primrec scrape_loop ::
  "nat \<Rightarrow> env \<Rightarrow> int option \<Rightarrow> int \<times> scraper \<Rightarrow> loop_exit \<times> int \<times> scraper" where
  "scrape_loop 0 w max_pages s =
     (if loop_condition max_pages s then (Still_running, s) else loop_left s)"
| "scrape_loop (Suc n) w max_pages s =
     (if loop_condition max_pages s then
        (case scrape_iteration w s of
           (r, st') \<Rightarrow>
             (case r of
                Inl e \<Rightarrow> (Error_propagated e, fst s, st')
              | Inr page_count' \<Rightarrow> scrape_loop n w max_pages (page_count', st')))
      else loop_left s)"

definition scrape ::
  "nat \<Rightarrow> env \<Rightarrow> int option \<Rightarrow> scraper \<Rightarrow> (loop_exit \<times> int \<times> scraper) option" where
  "scrape fuel w max_pages st =
     (case scrape_loop fuel w max_pages (0, st) of
        (ex, page_count, st') \<Rightarrow>
          if ex = Still_running then None
          else Some (ex, page_count,
                 if driver st' \<noteq> None then st'\<lparr>trace := trace st' @ [Driver_quit]\<rparr> else st'))"

section \<open>Observations and invariants\<close>

text \<open>The URLs handed to \<^verbatim>\<open>requests.get\<close>, in order. \<^verbatim>\<open>get_page_content\<close> starts with this
  call (line 149), so these are the URLs the fetch step was run on.\<close>

fun fetched :: "event list \<Rightarrow> string list" where
  "fetched [] = []"
| "fetched (Http_get url # evs) = url # fetched evs"
| "fetched (ev # evs) = fetched evs"

text \<open>Two URLs with the same \<^verbatim>\<open>netloc\<close> (user information, host and port), as
  \<^verbatim>\<open>is_same_domain\<close> compares them; false when either does not parse.\<close>

definition same_netloc :: "env \<Rightarrow> string \<Rightarrow> string \<Rightarrow> bool" where
  "same_netloc w base url =
     (case urlparse (ip_address_v6 w) base [] of
        Inl e \<Rightarrow> False
      | Inr b \<Rightarrow>
          (case urlparse (ip_address_v6 w) url [] of
             Inl e \<Rightarrow> False
           | Inr u \<Rightarrow> netloc u = netloc b))"

text \<open>The fetched URLs are pairwise different and are the visited set.\<close>

definition dedup_invariant :: "scraper \<Rightarrow> bool" where
  "dedup_invariant st =
     (distinct (fetched (trace st)) \<and> set (fetched (trace st)) = visited_urls st)"

text \<open>While the loop runs the driver has not been quit, and \<^verbatim>\<open>self.driver\<close> is set
  exactly when a browser was started.\<close>

definition driver_invariant :: "scraper \<Rightarrow> bool" where
  "driver_invariant st =
     (Driver_quit \<notin> set (trace st)
      \<and> ((driver st \<noteq> None) = (Webdriver_start True \<in> set (trace st))))"

text \<open>The number of rows written to the output file, the header included.\<close>

fun rows :: "event list \<Rightarrow> nat" where
  "rows [] = 0"
| "rows (Csv_row url content # evs) = Suc (rows evs)"
| "rows (ev # evs) = rows evs"

text \<open>At the head of the loop \<^verbatim>\<open>page_count\<close> is the number of URLs fetched so far, at most
  one row per fetched URL has been written, and a budget that is not negative has
  not been passed.\<close>

definition counting_invariant :: "int option \<Rightarrow> int \<times> scraper \<Rightarrow> bool" where
  "counting_invariant max_pages s =
     (int (length (fetched (trace (snd s)))) = fst s
      \<and> rows (trace (snd s)) \<le> Suc (length (fetched (trace (snd s))))
      \<and> (case max_pages of None \<Rightarrow> True | Some m \<Rightarrow> 0 \<le> m \<longrightarrow> fst s \<le> m))"

text \<open>Every URL in the queue or the visited set has the netloc of the base URL.\<close>

definition scoped :: "env \<Rightarrow> scraper \<Rightarrow> bool" where
  "scoped w st = (\<forall>u \<in> set (queue st) \<union> visited_urls st. same_netloc w (base_url st) u)"

section \<open>An example site\<close>

text \<open>
  A site of three pages for the examples. The seed page links to \<^verbatim>\<open>/a/b.html\<close> and to a
  page of another host; the page \<^verbatim>\<open>/a/b.html\<close> holds the relative link \<^verbatim>\<open>c.html\<close> and a
  link back to the seed; every other URL answers 404.
\<close>

definition seed_url :: string where
  "seed_url = ''http://example.com/docs/index.html''"

definition seed_html :: string where
  "seed_html = ''<a href=/a/b.html>b</a> <a href=https://other.example/x>x</a>''"

definition page_b_html :: string where
  "page_b_html = ''<p> Page  b </p> <a href=c.html>c</a> <a href=/docs/index.html>up</a>''"

definition example_env :: env where
  "example_env =
     \<lparr>ip_address_v6 = (\<lambda>h. False),
      soup_find_all_a_href =
        (\<lambda>html. if html = seed_html then [''/a/b.html'', ''https://other.example/x'']
                 else if html = page_b_html then [''c.html'', ''/docs/index.html'']
                 else []),
      soup_get_text =
        (\<lambda>html. if html = seed_html then ''b x''
                 else if html = page_b_html then '' Page  b   c up''
                 else []),
      detect_javascript_content = (\<lambda>html. False),
      requests_get =
        (\<lambda>n url. if url = seed_url then Response 200 seed_html
                  else if url = ''http://example.com/a/b.html'' then Response 200 page_b_html
                  else Response 404 []),
      selenium_importable = True,
      webdriver_Chrome = (\<lambda>n. True),
      driver_page_source = (\<lambda>n url. Some ''<p>rendered</p>''),
      robots_read_ok = True,
      robot_parser_can_fetch = (\<lambda>url. True),
      csv_writerow_ok = (\<lambda>n. True)\<rparr>"

text \<open>The scraper \<^verbatim>\<open>SmartWebScraper(seed_url)\<close> right after \<^verbatim>\<open>__init__\<close>.\<close>

definition example_scraper :: scraper where
  "example_scraper =
     \<lparr>base_url = seed_url, respect_robots = True, visited_urls = {},
      queue = [seed_url], robot_parser_completed = True,
      driver = None, tried_selenium = False,
      trace = [Csv_row ''URL'' ''Content'']\<rparr>"

text \<open>The same scraper for a seed written with an upper-case scheme.\<close>

definition uppercase_scraper :: scraper where
  "uppercase_scraper =
     example_scraper\<lparr>base_url := ''HTTP://example.com/'', queue := [''HTTP://example.com/'']\<rparr>"

text \<open>Variants of the site: every page answers 404; every page looks script-driven and
  the output file can no longer be written after the header; every page looks
  script-driven and the browser never starts; the robots file cannot be read (the
  parser of the standard library then answers false to every question); every page
  looks script-driven and the browser renders the markup of the seed; the seed links
  to three pages of its host that all answer 404.\<close>

definition not_found_env :: env where
  "not_found_env = example_env\<lparr>requests_get := (\<lambda>n url. Response 404 [])\<rparr>"

definition disk_full_env :: env where
  "disk_full_env =
     example_env\<lparr>detect_javascript_content := (\<lambda>html. True), csv_writerow_ok := (\<lambda>n. n = 0)\<rparr>"

definition chrome_fails_env :: env where
  "chrome_fails_env =
     example_env\<lparr>detect_javascript_content := (\<lambda>html. True), webdriver_Chrome := (\<lambda>n. False)\<rparr>"

definition robots_down_env :: env where
  "robots_down_env =
     example_env\<lparr>robots_read_ok := False, robot_parser_can_fetch := (\<lambda>url. False)\<rparr>"

definition render_env :: env where
  "render_env =
     example_env\<lparr>detect_javascript_content := (\<lambda>html. True),
                  driver_page_source := (\<lambda>n url. Some seed_html)\<rparr>"

definition budget_env :: env where
  "budget_env =
     example_env\<lparr>soup_find_all_a_href :=
                    (\<lambda>html. if html = seed_html then [''/p1'', ''/p2'', ''/p3''] else []),
                  requests_get :=
                    (\<lambda>n url. if url = seed_url then Response 200 seed_html
                              else Response 404 [])\<rparr>"

section \<open>Text extraction\<close>

text \<open>After the substitution no two whitespace characters stand in a row.\<close>

lemma re_sub_ws_no_run:
  "Suc i < length (re_sub_ws s) \<Longrightarrow>
   \<not> (py_isspace (re_sub_ws s ! i) \<and> py_isspace (re_sub_ws s ! Suc i))"
proof (induction s arbitrary: i rule: re_sub_ws.induct)
  case 1
  then show ?case by simp
next
  case (2 c cs)
  show ?case
  proof (cases "py_isspace c")
    case True
    let ?d = "dropWhile py_isspace cs"
    have eq: "re_sub_ws (c # cs) = CHR '' '' # re_sub_ws ?d"
      using True by simp
    show ?thesis
    proof (cases i)
      case 0
      have "re_sub_ws ?d \<noteq> []"
        using "2.prems" eq 0 by auto
      then obtain d ds where d: "?d = d # ds"
        by (cases ?d) auto
      then have "\<not> py_isspace d"
        using hd_dropWhile[of py_isspace cs] by simp
      then have "\<not> py_isspace (re_sub_ws ?d ! 0)"
        using d by simp
      then show ?thesis
        using eq 0 by simp
    next
      case (Suc j)
      then have "Suc j < length (re_sub_ws ?d)"
        using "2.prems" eq by simp
      from "2.IH"(1)[OF True this] show ?thesis
        using eq Suc by simp
    qed
  next
    case False
    have eq: "re_sub_ws (c # cs) = c # re_sub_ws cs"
      using False by simp
    show ?thesis
    proof (cases i)
      case 0
      then show ?thesis using eq False by simp
    next
      case (Suc j)
      then have "Suc j < length (re_sub_ws cs)"
        using "2.prems" eq by simp
      from "2.IH"(2)[OF False this] show ?thesis
        using eq Suc by simp
    qed
  qed
qed

lemma rev_dropWhile_rev_prefix:
  "rev (dropWhile P (rev t)) @ rev (takeWhile P (rev t)) = t"
proof -
  have "rev (takeWhile P (rev t) @ dropWhile P (rev t)) = t"
    by simp
  then show ?thesis
    by (simp only: rev_append)
qed

text \<open>\<^verbatim>\<open>strip\<close> returns a slice of its argument.\<close>

lemma py_strip_slice: "\<exists>k r. drop k s = py_strip s @ r"
proof -
  have "drop (length (takeWhile py_isspace s)) s = dropWhile py_isspace s"
    by (simp add: dropWhile_eq_drop)
  moreover have "py_strip s @ rev (takeWhile py_isspace (rev (dropWhile py_isspace s)))
      = dropWhile py_isspace s"
    unfolding py_strip_def by (rule rev_dropWhile_rev_prefix)
  ultimately have "drop (length (takeWhile py_isspace s)) s
      = py_strip s @ rev (takeWhile py_isspace (rev (dropWhile py_isspace s)))"
    by simp
  then show ?thesis by blast
qed

lemma py_strip_no_run:
  assumes "\<And>i. Suc i < length s \<Longrightarrow> \<not> (py_isspace (s ! i) \<and> py_isspace (s ! Suc i))"
    and "Suc i < length (py_strip s)"
  shows "\<not> (py_isspace (py_strip s ! i) \<and> py_isspace (py_strip s ! Suc i))"
proof -
  obtain k r where k: "drop k s = py_strip s @ r"
    using py_strip_slice by blast
  have "length (drop k s) = length (py_strip s) + length r"
    by (simp add: k)
  then have len: "k + length (py_strip s) \<le> length s"
    using assms(2) by simp
  have "py_strip s ! i = (py_strip s @ r) ! i"
    using assms(2) by (simp add: nth_append)
  also have "\<dots> = s ! (k + i)"
    using len assms(2) by (simp flip: k)
  finally have a: "py_strip s ! i = s ! (k + i)" .
  have "py_strip s ! Suc i = (py_strip s @ r) ! Suc i"
    using assms(2) by (simp add: nth_append)
  also have "\<dots> = s ! (k + Suc i)"
    using len assms(2) by (simp flip: k)
  finally have b: "py_strip s ! Suc i = s ! Suc (k + i)"
    by simp
  have "Suc (k + i) < length s"
    using assms(2) len by linarith
  from assms(1)[OF this] show ?thesis
    by (simp add: a b)
qed

lemma py_strip_hd: "py_strip s \<noteq> [] \<Longrightarrow> \<not> py_isspace (hd (py_strip s))"
proof -
  assume ne: "py_strip s \<noteq> []"
  define t where "t = dropWhile py_isspace s"
  have "py_strip s @ rev (takeWhile py_isspace (rev t)) = t"
    unfolding py_strip_def t_def by (rule rev_dropWhile_rev_prefix)
  with ne have "hd (py_strip s) = hd t" and "t \<noteq> []"
    by (metis hd_append2, metis append_is_Nil_conv)
  moreover from \<open>t \<noteq> []\<close> have "\<not> py_isspace (hd t)"
    unfolding t_def by (rule hd_dropWhile)
  ultimately show ?thesis by simp
qed

lemma py_strip_last: "py_strip s \<noteq> [] \<Longrightarrow> \<not> py_isspace (last (py_strip s))"
proof -
  assume ne: "py_strip s \<noteq> []"
  define d where "d = dropWhile py_isspace (rev (dropWhile py_isspace s))"
  have ps: "py_strip s = rev d"
    by (simp add: py_strip_def d_def)
  with ne have "d \<noteq> []" by simp
  then have "\<not> py_isspace (hd d)"
    unfolding d_def by (rule hd_dropWhile)
  with \<open>d \<noteq> []\<close> show ?thesis
    by (simp add: ps last_rev)
qed

text \<open>
  Claim C9. For every markup the text returned by \<^verbatim>\<open>extract_text\<close> has no two whitespace
  characters in a row, and neither starts nor ends with a whitespace character; for
  \<^verbatim>\<open>None\<close> and for the empty markup it is the empty string. This holds whatever text the
  HTML parser hands back.
\<close>

theorem extract_text_normalized:
  "(\<forall>i. Suc i < length (extract_text w html_content) \<longrightarrow>
        \<not> (py_isspace (extract_text w html_content ! i)
           \<and> py_isspace (extract_text w html_content ! Suc i)))
   \<and> (extract_text w html_content \<noteq> [] \<longrightarrow>
        \<not> py_isspace (hd (extract_text w html_content))
        \<and> \<not> py_isspace (last (extract_text w html_content)))
   \<and> extract_text w None = []
   \<and> extract_text w (Some []) = []"
proof -
  have runs: "\<forall>i. Suc i < length (extract_text w html_content) \<longrightarrow>
        \<not> (py_isspace (extract_text w html_content ! i)
           \<and> py_isspace (extract_text w html_content ! Suc i))"
  proof (cases html_content)
    case None
    then show ?thesis by (simp add: extract_text_def)
  next
    case (Some html)
    show ?thesis
    proof (cases "html = []")
      case True
      with Some show ?thesis by (simp add: extract_text_def)
    next
      case False
      then have "extract_text w html_content = py_strip (re_sub_ws (soup_get_text w html))"
        using Some by (simp add: extract_text_def)
      then show ?thesis
        using py_strip_no_run[of "re_sub_ws (soup_get_text w html)"] re_sub_ws_no_run
        by presburger
    qed
  qed
  have ends: "extract_text w html_content \<noteq> [] \<longrightarrow>
        \<not> py_isspace (hd (extract_text w html_content))
        \<and> \<not> py_isspace (last (extract_text w html_content))"
    using py_strip_hd py_strip_last
    by (auto simp: extract_text_def split: option.splits if_splits)
  have "extract_text w None = []" and "extract_text w (Some []) = []"
    by (simp_all add: extract_text_def)
  with runs ends show ?thesis by blast
qed

theorem extract_text_normalized_witness:
  "extract_text example_env (Some page_b_html) = ''Page b c up''
   \<and> \<not> py_isspace (hd (extract_text example_env (Some page_b_html)))
   \<and> \<not> py_isspace (last (extract_text example_env (Some page_b_html)))
   \<and> extract_text example_env None = []"
proof -
  have v: "extract_text example_env (Some page_b_html) = ''Page b c up''"
    by (simp add: extract_text_def example_env_def page_b_html_def seed_html_def
        py_strip_def py_isspace_def)
  then have "extract_text example_env (Some page_b_html) \<noteq> []"
    by simp
  with v extract_text_normalized[of example_env "Some page_b_html"] show ?thesis
    by blast
qed

section \<open>Normalisation of URLs\<close>

lemma startswithD: "startswith s p \<Longrightarrow> \<exists>r. s = p @ r"
  unfolding startswith_def by (metis append_take_drop_id)

lemma startswith_prefix:
  assumes "startswith v (p @ q)"
  shows "startswith v p"
proof -
  have "take (length p) (take (length (p @ q)) v) = take (length p) (p @ q)"
    using assms by (simp only: startswith_def)
  then show ?thesis
    by (simp add: startswith_def min_def)
qed

lemma urlsplit_scheme_http:
  "urlsplit ip (''http://'' @ r) s0 = Inr parts \<Longrightarrow> fst parts = ''http''"
  by (auto simp: urlsplit_def c0_control_or_space_def unsafe_url_byte_def py_find_def Let_def
      ascii_lowercase_def ascii_uppercase_def scheme_chars_def lower_char_def
      split: if_splits prod.splits)

lemma urlsplit_scheme_https:
  "urlsplit ip (''https://'' @ r) s0 = Inr parts \<Longrightarrow> fst parts = ''https''"
  by (auto simp: urlsplit_def c0_control_or_space_def unsafe_url_byte_def py_find_def Let_def
      ascii_lowercase_def ascii_uppercase_def scheme_chars_def lower_char_def
      split: if_splits prod.splits)

lemma urlparse_scheme:
  assumes "urlparse ip url s0 = Inr p"
  shows "\<exists>parts. urlsplit ip url s0 = Inr parts \<and> scheme p = fst parts"
proof (cases "urlsplit ip url s0")
  case (Inl e)
  with assms show ?thesis by (simp add: urlparse_def)
next
  case (Inr parts)
  obtain sch nl u q f where p: "parts = (sch, nl, u, q, f)"
    by (cases parts) auto
  obtain u' ps where s: "(if sch \<in> set uses_params \<and> CHR '';'' \<in> set u then splitparams u
                  else (u, [])) = (u', ps)"
    by fastforce
  from assms Inr p s have "scheme p = sch"
    by (auto simp: urlparse_def Let_def)
  with Inr p show ?thesis by simp
qed

lemma urlparse_http_base:
  assumes "startswith base ''http://'' \<or> startswith base ''https://''"
    and "urlparse ip base s0 = Inr b"
  shows "scheme b = ''http'' \<or> scheme b = ''https''"
proof -
  from assms(2) obtain parts where parts: "urlsplit ip base s0 = Inr parts" "scheme b = fst parts"
    using urlparse_scheme by blast
  from assms(1) show ?thesis
  proof
    assume "startswith base ''http://''"
    then obtain r where "base = ''http://'' @ r"
      using startswithD by blast
    with parts urlsplit_scheme_http[of ip r s0 parts] show ?thesis
      by simp
  next
    assume "startswith base ''https://''"
    then obtain r where "base = ''https://'' @ r"
      using startswithD by blast
    with parts urlsplit_scheme_https[of ip r s0 parts] show ?thesis
      by simp
  qed
qed

lemma urljoin_components_scheme: "scheme (urljoin_components b u) = scheme u"
  by (simp add: urljoin_components_def Let_def)

lemma urlunparse_startswith_scheme:
  "scheme p \<noteq> [] \<Longrightarrow> startswith (urlunparse p) (scheme p)"
  by (simp add: urlunparse_def urlunsplit_def Let_def startswith_def)

lemma urljoin_result:
  assumes "urljoin ip base u = Inr v" and "base \<noteq> []" and "u \<noteq> []"
    and "urlparse ip base [] = Inr b" and "scheme b \<noteq> []"
  shows "v = u \<or> startswith v (scheme b)"
proof (cases "urlparse ip u (scheme b)")
  case (Inl e)
  with assms show ?thesis by (simp add: urljoin_def)
next
  case (Inr pu)
  show ?thesis
  proof (cases "scheme pu \<noteq> scheme b \<or> scheme pu \<notin> set uses_relative")
    case True
    with assms Inr show ?thesis by (auto simp: urljoin_def)
  next
    case False
    with assms Inr have v: "v = urlunparse (urljoin_components b pu)"
      by (auto simp: urljoin_def)
    from False have "scheme (urljoin_components b pu) = scheme b"
      by (simp add: urljoin_components_scheme)
    with assms(5) urlunparse_startswith_scheme[of "urljoin_components b pu"] v
    show ?thesis by simp
  qed
qed

lemma startswith_http_scheme:
  assumes "startswith v s" and "s = ''http'' \<or> s = ''https''"
  shows "startswith v ''http''"
proof -
  from assms have "startswith v (''http'' @ []) \<or> startswith v (''http'' @ ''s'')"
    by auto
  then show ?thesis
    using startswith_prefix by blast
qed

text \<open>
  Claim C8, as amended. For a scraper whose base URL starts with \<^verbatim>\<open>http://\<close> or
  \<^verbatim>\<open>https://\<close>, and every string \<open>u\<close> on which \<^verbatim>\<open>normalize_url\<close> returns rather than raises,
  normalising the result again returns it unchanged.
\<close>

theorem normalize_url_idempotent_http:
  assumes base: "startswith (base_url st) ''http://'' \<or> startswith (base_url st) ''https://''"
    and u: "normalize_url w st u = Inr v"
  shows "normalize_url w st v = Inr v"
proof (cases "startswith u ''http''")
  case True
  with u show ?thesis by (simp add: normalize_url_def)
next
  case False
  with u have j: "urljoin (ip_address_v6 w) (base_url st) u = Inr v"
    by (simp add: normalize_url_def)
  have bne: "base_url st \<noteq> []"
    using base by (auto simp: startswith_def)
  from base have "startswith (base_url st) (''http'' @ ''://'')
      \<or> startswith (base_url st) (''http'' @ ''s://'')"
    by simp
  then have bhttp: "startswith (base_url st) ''http''"
    using startswith_prefix by blast
  have "v = u \<or> startswith v ''http''"
  proof (cases "u = []")
    case True
    with j bne have "v = base_url st" by (simp add: urljoin_def)
    with bhttp show ?thesis by simp
  next
    case une: False
    show ?thesis
    proof (cases "urlparse (ip_address_v6 w) (base_url st) []")
      case (Inl e)
      with j bne une show ?thesis by (simp add: urljoin_def)
    next
      case (Inr b)
      from urlparse_http_base[OF base Inr] have s: "scheme b = ''http'' \<or> scheme b = ''https''" .
      then have "scheme b \<noteq> []" by auto
      from urljoin_result[OF j bne une Inr this] s show ?thesis
        using startswith_http_scheme by blast
    qed
  qed
  then show ?thesis
  proof
    assume "v = u"
    with u show ?thesis by simp
  next
    assume "startswith v ''http''"
    then show ?thesis by (simp add: normalize_url_def)
  qed
qed

text \<open>
  Claim C8 as stated fails: with the base URL \<^verbatim>\<open>HTTP://example.com/\<close> the empty reference is
  normalised to the base URL as written, and normalising that once more lower-cases
  its scheme.
\<close>

theorem normalize_url_not_idempotent:
  "normalize_url example_env uppercase_scraper [] = Inr ''HTTP://example.com/''
   \<and> normalize_url example_env uppercase_scraper ''HTTP://example.com/''
       = Inr ''http://example.com/''"
  by code_simp

theorem normalize_url_idempotent_http_witness:
  "normalize_url example_env example_scraper ''../x/./y.html'' = Inr ''http://example.com/x/y.html''
   \<and> normalize_url example_env example_scraper ''http://example.com/x/y.html''
       = Inr ''http://example.com/x/y.html''"
proof -
  have b: "startswith (base_url example_scraper) ''http://''
            \<or> startswith (base_url example_scraper) ''https://''"
    by code_simp
  have n: "normalize_url example_env example_scraper ''../x/./y.html''
             = Inr ''http://example.com/x/y.html''"
    by code_simp
  from normalize_url_idempotent_http[OF b n] n show ?thesis
    by simp
qed

section \<open>Link extraction\<close>

lemma extract_links_loop_eq:
  "extract_links_loop w st hrefs acc = Inr links \<Longrightarrow>
   links = acc @ filter (\<lambda>l. is_same_domain w st l = Inr True)
                  (map (\<lambda>href. projr (normalize_url w st href))
                     (filter (\<lambda>href. \<not> skip_href href) hrefs))"
proof (induction hrefs arbitrary: acc)
  case Nil
  then show ?case by simp
next
  case (Cons href hrefs)
  show ?case
  proof (cases "skip_href href")
    case True
    with Cons show ?thesis by simp
  next
    case False
    with Cons.prems obtain full_url where n: "normalize_url w st href = Inr full_url"
      by (cases "normalize_url w st href") auto
    with False Cons.prems obtain same where s: "is_same_domain w st full_url = Inr same"
      by (cases "is_same_domain w st full_url") auto
    show ?thesis
    proof (cases same)
      case True
      with False n s Cons.prems have "extract_links_loop w st hrefs (acc @ [full_url]) = Inr links"
        by simp
      from Cons.IH[OF this] False n s True show ?thesis by simp
    next
      case nsame: False
      with False n s Cons.prems have "extract_links_loop w st hrefs acc = Inr links"
        by simp
      from Cons.IH[OF this] False n s nsame show ?thesis by simp
    qed
  qed
qed

lemma is_same_domain_same_netloc:
  "(is_same_domain w st url = Inr True) = same_netloc w (base_url st) url"
  by (auto simp: is_same_domain_def same_netloc_def split: sum.splits)

text \<open>
  Claim C2, as amended. The links \<^verbatim>\<open>extract_links\<close> returns for a page are, in document
  order, the references that are not skipped, each kept as it is when it starts with
  \<^verbatim>\<open>http\<close> and otherwise resolved with \<^verbatim>\<open>urljoin\<close> against the scraper's configured
  \<^verbatim>\<open>base_url\<close>, and then filtered by \<^verbatim>\<open>is_same_domain\<close>. The URL of the page the markup was
  fetched from is not an argument of \<^verbatim>\<open>extract_links\<close> and plays no part.
\<close>

theorem links_resolved_against_base_url:
  assumes "extract_links w st (Some html) = Inr links" and "html \<noteq> []"
  shows "links = filter (same_netloc w (base_url st))
                   (map (\<lambda>href. if startswith href ''http'' then href
                                 else projr (urljoin (ip_address_v6 w) (base_url st) href))
                      (filter (\<lambda>href. \<not> skip_href href) (soup_find_all_a_href w html)))"
proof -
  from assms have "extract_links_loop w st (soup_find_all_a_href w html) [] = Inr links"
    by (simp add: extract_links_def)
  from extract_links_loop_eq[OF this]
  have "links = filter (\<lambda>l. is_same_domain w st l = Inr True)
                  (map (\<lambda>href. projr (normalize_url w st href))
                     (filter (\<lambda>href. \<not> skip_href href) (soup_find_all_a_href w html)))"
    by simp
  moreover have "(\<lambda>href. projr (normalize_url w st href))
      = (\<lambda>href. if startswith href ''http'' then href
                 else projr (urljoin (ip_address_v6 w) (base_url st) href))"
    by (auto simp: normalize_url_def)
  moreover have "(\<lambda>l. is_same_domain w st l = Inr True) = same_netloc w (base_url st)"
    by (auto simp: is_same_domain_same_netloc)
  ultimately show ?thesis by simp
qed

text \<open>
  Claim C2 as stated fails: the page served at \<^verbatim>\<open>http://example.com/a/b.html\<close> holds the
  reference \<^verbatim>\<open>c.html\<close>. A scraper whose base URL is \<^verbatim>\<open>http://example.com/docs/index.html\<close>
  extracts it as \<^verbatim>\<open>http://example.com/docs/c.html\<close>; resolved against the page's own URL
  it would be \<^verbatim>\<open>http://example.com/a/c.html\<close>.
\<close>

theorem links_not_resolved_against_page_url:
  "requests_get example_env 0 ''http://example.com/a/b.html'' = Response 200 page_b_html
   \<and> soup_find_all_a_href example_env page_b_html = [''c.html'', ''/docs/index.html'']
   \<and> extract_links example_env example_scraper (Some page_b_html)
       = Inr [''http://example.com/docs/c.html'', ''http://example.com/docs/index.html'']
   \<and> urljoin (ip_address_v6 example_env) ''http://example.com/a/b.html'' ''c.html''
       = Inr ''http://example.com/a/c.html''"
  by code_simp

theorem links_resolved_against_base_url_witness:
  "extract_links example_env example_scraper (Some page_b_html)
     = Inr [''http://example.com/docs/c.html'', ''http://example.com/docs/index.html'']
   \<and> urljoin (ip_address_v6 example_env) (base_url example_scraper) ''c.html''
       = Inr ''http://example.com/docs/c.html''
   \<and> [''http://example.com/docs/c.html'', ''http://example.com/docs/index.html'']
     = filter (same_netloc example_env (base_url example_scraper))
         (map (\<lambda>href. if startswith href ''http'' then href
                       else projr (urljoin (ip_address_v6 example_env) (base_url example_scraper) href))
            (filter (\<lambda>href. \<not> skip_href href) (soup_find_all_a_href example_env page_b_html)))"
proof -
  have e: "extract_links example_env example_scraper (Some page_b_html)
     = Inr [''http://example.com/docs/c.html'', ''http://example.com/docs/index.html'']"
    by code_simp
  have n: "page_b_html \<noteq> []"
    by code_simp
  have j: "urljoin (ip_address_v6 example_env) (base_url example_scraper) ''c.html''
       = Inr ''http://example.com/docs/c.html''"
    by code_simp
  from links_resolved_against_base_url[OF e n] e j show ?thesis
    by simp
qed

lemma extract_links_same_netloc:
  assumes "extract_links w st html_content = Inr links" and "l \<in> set links"
  shows "same_netloc w (base_url st) l"
proof (cases html_content)
  case None
  with assms show ?thesis by (simp add: extract_links_def)
next
  case (Some html)
  show ?thesis
  proof (cases "html = []")
    case True
    with Some assms show ?thesis by (simp add: extract_links_def)
  next
    case False
    with Some assms(1) have "extract_links_loop w st (soup_find_all_a_href w html) [] = Inr links"
      by (simp add: extract_links_def)
    from extract_links_loop_eq[OF this] assms(2) show ?thesis
      by (auto simp: is_same_domain_same_netloc)
  qed
qed

section \<open>The fetch step\<close>

text \<open>
  Claim C6. When the static request of \<^verbatim>\<open>get_page_content\<close> completes with a status code
  other than 200, the call returns \<^verbatim>\<open>None\<close> and the scraper is as before but for the
  record of the request itself: \<^verbatim>\<open>driver\<close> and \<^verbatim>\<open>tried_selenium\<close> are unchanged, and neither
  a start of the browser nor a navigation is performed.
\<close>

theorem non_200_is_terminal:
  "requests_get w (length (trace st)) url = Response status_code body \<Longrightarrow>
   status_code \<noteq> 200 \<Longrightarrow>
   get_page_content w url st = (Inr None, st\<lparr>trace := trace st @ [Http_get url]\<rparr>)"
  by (simp add: get_page_content_def)

theorem non_200_is_terminal_witness:
  "requests_get example_env (length (trace example_scraper)) ''http://example.com/gone''
     = Response 404 []
   \<and> get_page_content example_env ''http://example.com/gone'' example_scraper
     = (Inr None,
        example_scraper\<lparr>trace := [Csv_row ''URL'' ''Content'',
                                   Http_get ''http://example.com/gone'']\<rparr>)"
proof -
  have r: "requests_get example_env (length (trace example_scraper)) ''http://example.com/gone''
             = Response 404 []"
    by (simp add: example_env_def seed_url_def)
  have "get_page_content example_env ''http://example.com/gone'' example_scraper
          = (Inr None, example_scraper\<lparr>trace := trace example_scraper
                                           @ [Http_get ''http://example.com/gone'']\<rparr>)"
    using non_200_is_terminal[OF r] by simp
  with r show ?thesis
    by (simp add: example_scraper_def)
qed

section \<open>The crawl loop\<close>

subsection \<open>What each step leaves unchanged\<close>

lemmas gpc_defs = get_page_content_def get_page_content_except_def initialize_selenium_def Let_def

lemmas gpc_splits = http_result.split option.split sum.split prod.split

lemma fetched_append: "fetched (xs @ ys) = fetched xs @ fetched ys"
  by (induction xs rule: fetched.induct) auto

lemma get_page_content_base_url: "base_url (snd (get_page_content w url st)) = base_url st"
  by (simp add: gpc_defs split: gpc_splits)

lemma get_page_content_respect_robots:
  "respect_robots (snd (get_page_content w url st)) = respect_robots st"
  by (simp add: gpc_defs split: gpc_splits)

lemma get_page_content_visited_urls:
  "visited_urls (snd (get_page_content w url st)) = visited_urls st"
  by (simp add: gpc_defs split: gpc_splits)

lemma get_page_content_queue: "queue (snd (get_page_content w url st)) = queue st"
  by (simp add: gpc_defs split: gpc_splits)

lemma get_page_content_robot_parser_completed:
  "robot_parser_completed (snd (get_page_content w url st)) = robot_parser_completed st"
  by (simp add: gpc_defs split: gpc_splits)

lemma get_page_content_fetched:
  "fetched (trace (snd (get_page_content w url st))) = fetched (trace st) @ [url]"
  by (simp add: gpc_defs fetched_append split: gpc_splits)

lemma driver_invariant_queue [simp]:
  "driver_invariant (st\<lparr>queue := q\<rparr>) = driver_invariant st"
  by (simp add: driver_invariant_def)

lemma driver_invariant_visited_urls [simp]:
  "driver_invariant (st\<lparr>visited_urls := v\<rparr>) = driver_invariant st"
  by (simp add: driver_invariant_def)

lemma driver_invariant_csv_row [simp]:
  "driver_invariant (st\<lparr>trace := trace st @ [Csv_row url content]\<rparr>) = driver_invariant st"
  by (auto simp: driver_invariant_def)

lemma get_page_content_driver_invariant:
  "driver_invariant st \<Longrightarrow> driver_invariant (snd (get_page_content w url st))"
  by (simp add: driver_invariant_def gpc_defs split: gpc_splits)

lemma enqueue_links_driver_invariant [simp]:
  "driver_invariant (enqueue_links links st) = driver_invariant st"
  by (induction links arbitrary: st) simp_all

lemma enqueue_links_fields:
  "base_url (enqueue_links links st) = base_url st
   \<and> respect_robots (enqueue_links links st) = respect_robots st
   \<and> visited_urls (enqueue_links links st) = visited_urls st
   \<and> robot_parser_completed (enqueue_links links st) = robot_parser_completed st
   \<and> driver (enqueue_links links st) = driver st
   \<and> tried_selenium (enqueue_links links st) = tried_selenium st
   \<and> trace (enqueue_links links st) = trace st"
  by (induction links arbitrary: st) simp_all

lemma enqueue_links_queue:
  "set (queue (enqueue_links links st)) \<subseteq> set (queue st) \<union> set links"
proof (induction links arbitrary: st)
  case Nil
  show ?case by simp
next
  case (Cons link links)
  let ?st = "if link \<notin> visited_urls st \<and> link \<notin> set (queue st)
             then st\<lparr>queue := queue st @ [link]\<rparr> else st"
  have "set (queue (enqueue_links links ?st)) \<subseteq> set (queue ?st) \<union> set links"
    by (rule Cons.IH)
  moreover have "set (queue ?st) \<subseteq> set (queue st) \<union> {link}"
    by auto
  ultimately show ?case
    by (simp only: enqueue_links.simps) auto
qed

lemmas iteration_defs = scrape_iteration_def save_to_csv_def case_prod_beta Let_def

lemmas iteration_splits = list.split sum.split

lemma scrape_iteration_base_url: "base_url (snd (scrape_iteration w s)) = base_url (snd s)"
  by (simp add: iteration_defs get_page_content_base_url enqueue_links_fields
      split: iteration_splits)

lemma scrape_iteration_respect_robots:
  "respect_robots (snd (scrape_iteration w s)) = respect_robots (snd s)"
  by (simp add: iteration_defs get_page_content_respect_robots enqueue_links_fields
      split: iteration_splits)

lemma scrape_iteration_robot_parser_completed:
  "robot_parser_completed (snd (scrape_iteration w s)) = robot_parser_completed (snd s)"
  by (simp add: iteration_defs get_page_content_robot_parser_completed enqueue_links_fields
      split: iteration_splits)

lemma scrape_iteration_driver_invariant:
  "driver_invariant (snd s) \<Longrightarrow> driver_invariant (snd (scrape_iteration w s))"
  by (simp add: iteration_defs get_page_content_driver_invariant split: iteration_splits)

lemma scrape_iteration_fetched:
  "queue (snd s) = url # rest \<Longrightarrow>
   fetched (trace (snd (scrape_iteration w s)))
     = (if skip_url w ((snd s)\<lparr>queue := rest\<rparr>) url then fetched (trace (snd s))
        else fetched (trace (snd s)) @ [url])"
  by (simp add: iteration_defs get_page_content_fetched enqueue_links_fields fetched_append
      split: iteration_splits)

lemma scrape_iteration_visited_urls:
  "queue (snd s) = url # rest \<Longrightarrow>
   visited_urls (snd (scrape_iteration w s))
     = (if skip_url w ((snd s)\<lparr>queue := rest\<rparr>) url then visited_urls (snd s)
        else insert url (visited_urls (snd s)))"
  by (simp add: iteration_defs get_page_content_visited_urls enqueue_links_fields
      split: iteration_splits)

subsection \<open>Invariants of the loop\<close>

lemma scrape_loop_invariant:
  assumes step: "\<And>s. I (snd s) \<Longrightarrow> loop_condition max_pages s \<Longrightarrow> I (snd (scrape_iteration w s))"
    and init: "I (snd s)"
  shows "I (snd (snd (scrape_loop n w max_pages s)))"
  using init
proof (induction n arbitrary: s)
  case 0
  then show ?case by (simp add: loop_left_def)
next
  case (Suc n)
  show ?case
  proof (cases "loop_condition max_pages s")
    case False
    with Suc.prems show ?thesis by (simp add: loop_left_def)
  next
    case True
    from step[OF Suc.prems True] have I': "I (snd (scrape_iteration w s))" .
    show ?thesis
    proof (cases "fst (scrape_iteration w s)")
      case (Inl e)
      with True I' show ?thesis by (simp add: case_prod_beta)
    next
      case (Inr pc')
      from I' have "I (snd (pc', snd (scrape_iteration w s)))" by simp
      from Suc.IH[OF this] True Inr show ?thesis by (simp add: case_prod_beta)
    qed
  qed
qed


subsection \<open>The state after init\<close>

lemma init_fields:
  assumes "init w base respect = Inr st0"
  shows "base_url st0 = base" and "visited_urls st0 = {}" and "queue st0 = [base]"
    and "robot_parser_completed st0 = robots_read_ok w" and "driver st0 = None"
    and "trace st0 = [Csv_row ''URL'' ''Content'']"
    and "\<exists>b. urlparse (ip_address_v6 w) base [] = Inr b"
  using assms by (auto simp: init_def split: sum.splits if_splits)

subsection \<open>Starting the browser\<close>

text \<open>
  Claim C1 does not hold of the code: \<^verbatim>\<open>tried_selenium\<close> is set only after
  \<^verbatim>\<open>initialize_selenium\<close> has succeeded (lines 158-159 and 180-181), so a failed start is
  tried again for the next page that asks for rendering. On the example site with
  every page classified as script-driven and a browser that never starts, one run
  calls \<^verbatim>\<open>webdriver.Chrome\<close> twice, once for the seed and once for \<^verbatim>\<open>/a/b.html\<close>.
\<close>

theorem selenium_retried_after_failure:
  "init chrome_fails_env seed_url True = Inr example_scraper
   \<and> scrape 4 chrome_fails_env None example_scraper
     = Some (Frontier_exhausted, 3,
         example_scraper\<lparr>
           visited_urls := {seed_url, ''http://example.com/a/b.html'',
                            ''http://example.com/docs/c.html''},
           queue := [],
           trace := [Csv_row ''URL'' ''Content'',
                     Http_get seed_url,
                     Webdriver_start False,
                     Csv_row seed_url ''b x'',
                     Http_get ''http://example.com/a/b.html'',
                     Webdriver_start False,
                     Csv_row ''http://example.com/a/b.html'' ''Page b c up'',
                     Http_get ''http://example.com/docs/c.html'']\<rparr>)"
  by code_simp

subsection \<open>No URL is fetched twice\<close>

lemma skip_url_queue [simp]: "skip_url w (st\<lparr>queue := q\<rparr>) url = skip_url w st url"
  by (simp add: skip_url_def can_fetch_def)

lemma scrape_iteration_dedup:
  assumes "dedup_invariant (snd s)" and "loop_condition max_pages s"
  shows "dedup_invariant (snd (scrape_iteration w s))"
proof -
  from assms(2) obtain url rest where q: "queue (snd s) = url # rest"
    by (cases "queue (snd s)") (auto simp: loop_condition_def)
  show ?thesis
  proof (cases "skip_url w (snd s) url")
    case True
    with q assms(1) show ?thesis
      by (simp add: dedup_invariant_def scrape_iteration_fetched scrape_iteration_visited_urls)
  next
    case False
    then have "url \<notin> visited_urls (snd s)"
      by (simp add: skip_url_def)
    with q assms(1) False show ?thesis
      by (simp add: dedup_invariant_def scrape_iteration_fetched scrape_iteration_visited_urls)
  qed
qed

text \<open>
  Claim C4. In every state the crawl loop reaches from a freshly built scraper, the URLs
  the fetch step was run on are pairwise different, and they are exactly the visited
  set. When the loop takes the URL at the head of the queue and does not skip it, that
  URL has not been fetched before, it is in the visited set after the pass, and the pass
  fetches it once.
\<close>

theorem no_url_fetched_twice:
  assumes "init w base respect = Inr st0"
    and "scrape_loop n w max_pages (0, st0) = (ex, page_count, st)"
  shows "distinct (fetched (trace st))
    \<and> set (fetched (trace st)) = visited_urls st
    \<and> (\<forall>url rest. queue st = url # rest \<and> \<not> skip_url w (st\<lparr>queue := rest\<rparr>) url \<longrightarrow>
          url \<notin> set (fetched (trace st))
          \<and> url \<in> visited_urls (snd (scrape_iteration w (page_count, st)))
          \<and> fetched (trace (snd (scrape_iteration w (page_count, st))))
              = fetched (trace st) @ [url])"
proof -
  have "dedup_invariant (snd (0::int, st0))"
    using init_fields[OF assms(1)] by (simp add: dedup_invariant_def)
  then have "dedup_invariant (snd (snd (scrape_loop n w max_pages (0, st0))))"
    using scrape_iteration_dedup by (rule scrape_loop_invariant[rotated])
  with assms(2) have inv: "dedup_invariant st"
    by simp
  have "url \<notin> set (fetched (trace st))
          \<and> url \<in> visited_urls (snd (scrape_iteration w (page_count, st)))
          \<and> fetched (trace (snd (scrape_iteration w (page_count, st))))
              = fetched (trace st) @ [url]"
    if "queue st = url # rest" and "\<not> skip_url w (st\<lparr>queue := rest\<rparr>) url" for url rest
  proof -
    from that(2) have "url \<notin> visited_urls st"
      by (simp add: skip_url_def)
    with inv have "url \<notin> set (fetched (trace st))"
      by (simp add: dedup_invariant_def)
    moreover from that have "url \<in> visited_urls (snd (scrape_iteration w (page_count, st)))"
      by (simp add: scrape_iteration_visited_urls)
    moreover from that have "fetched (trace (snd (scrape_iteration w (page_count, st))))
              = fetched (trace st) @ [url]"
      by (simp add: scrape_iteration_fetched)
    ultimately show ?thesis by blast
  qed
  with inv show ?thesis
    unfolding dedup_invariant_def by blast
qed

theorem no_url_fetched_twice_witness:
  "fetched (trace (snd (snd (scrape_loop 4 example_env None (0, example_scraper)))))
     = [seed_url, ''http://example.com/a/b.html'', ''http://example.com/docs/c.html'']
   \<and> distinct (fetched (trace (snd (snd (scrape_loop 4 example_env None (0, example_scraper))))))
   \<and> visited_urls (snd (snd (scrape_loop 4 example_env None (0, example_scraper))))
     = {seed_url, ''http://example.com/a/b.html'', ''http://example.com/docs/c.html''}"
proof -
  have i: "init example_env seed_url True = Inr example_scraper"
    by code_simp
  obtain ex page_count st where
    r: "scrape_loop 4 example_env None (0, example_scraper) = (ex, page_count, st)"
    by (cases "scrape_loop 4 example_env None (0, example_scraper)") auto
  have f: "fetched (trace (snd (snd (scrape_loop 4 example_env None (0, example_scraper)))))
     = [seed_url, ''http://example.com/a/b.html'', ''http://example.com/docs/c.html'']"
    by code_simp
  from no_url_fetched_twice[OF i r] r f show ?thesis
    by auto
qed

subsection \<open>The frontier stays on the seed's host\<close>

lemma scrape_iteration_queue_scoped:
  assumes "queue (snd s) = url # rest"
    and "\<forall>u\<in>set rest. same_netloc w (base_url (snd s)) u"
  shows "\<forall>u\<in>set (queue (snd (scrape_iteration w s))). same_netloc w (base_url (snd s)) u"
proof
  fix u
  assume u: "u \<in> set (queue (snd (scrape_iteration w s)))"
  let ?st2 = "(snd s)\<lparr>queue := rest, visited_urls := insert url (visited_urls (snd s))\<rparr>"
  let ?g = "get_page_content w url ?st2"
  show "same_netloc w (base_url (snd s)) u"
  proof (cases "skip_url w (snd s) url")
    case True
    with assms u show ?thesis
      by (simp add: iteration_defs)
  next
    case nskip: False
    show ?thesis
    proof (cases "fst ?g")
      case (Inl e)
      with assms u nskip show ?thesis
        by (simp add: iteration_defs get_page_content_queue)
    next
      case (Inr html_content)
      show ?thesis
      proof (cases "html_content \<noteq> None \<and> html_content \<noteq> Some []")
        case False
        with assms u nskip Inr show ?thesis
          by (auto simp: iteration_defs get_page_content_queue)
      next
        case truthy: True
        show ?thesis
        proof (cases "csv_writerow_ok w (length (trace (snd ?g)))")
          case False
          with assms u nskip Inr truthy show ?thesis
            by (auto simp: iteration_defs get_page_content_queue)
        next
          case ok: True
          let ?st4 = "(snd ?g)\<lparr>trace := trace (snd ?g) @ [Csv_row url (extract_text w html_content)]\<rparr>"
          show ?thesis
          proof (cases "extract_links w ?st4 html_content")
            case (Inl e)
            with assms u nskip Inr truthy ok show ?thesis
              by (auto simp: iteration_defs get_page_content_queue)
          next
            case links: (Inr links)
            with assms u nskip Inr truthy ok
            have "u \<in> set (queue (enqueue_links links ?st4))"
              by (auto simp: iteration_defs)
            then have "u \<in> set (queue ?st4) \<union> set links"
              using enqueue_links_queue by blast
            then show ?thesis
            proof
              assume "u \<in> set (queue ?st4)"
              with assms show ?thesis
                by (simp add: get_page_content_queue)
            next
              assume "u \<in> set links"
              from extract_links_same_netloc[OF links this] show ?thesis
                by (simp add: get_page_content_base_url)
            qed
          qed
        qed
      qed
    qed
  qed
qed

lemma scrape_iteration_scoped:
  assumes "scoped w (snd s)" and "loop_condition max_pages s"
  shows "scoped w (snd (scrape_iteration w s))"
proof -
  from assms(2) obtain url rest where q: "queue (snd s) = url # rest"
    by (cases "queue (snd s)") (auto simp: loop_condition_def)
  from assms(1) q have rest: "\<forall>u\<in>set rest. same_netloc w (base_url (snd s)) u"
    and url: "same_netloc w (base_url (snd s)) url"
    and vis: "\<forall>u\<in>visited_urls (snd s). same_netloc w (base_url (snd s)) u"
    by (simp_all add: scoped_def)
  from scrape_iteration_queue_scoped[OF q rest]
  have "\<forall>u\<in>set (queue (snd (scrape_iteration w s))). same_netloc w (base_url (snd s)) u" .
  moreover have "\<forall>u\<in>visited_urls (snd (scrape_iteration w s)). same_netloc w (base_url (snd s)) u"
    using q url vis by (simp add: scrape_iteration_visited_urls)
  ultimately show ?thesis
    by (auto simp: scoped_def scrape_iteration_base_url)
qed

lemma same_netloc_refl:
  "urlparse (ip_address_v6 w) base [] = Inr b \<Longrightarrow> same_netloc w base base"
  by (simp add: same_netloc_def)

text \<open>
  Claim C5. Every link \<^verbatim>\<open>extract_links\<close> returns has the netloc of the scraper's base URL,
  and in every state the crawl loop reaches from a freshly built scraper every URL in
  the queue and in the visited set has it. The netloc is the user information, host
  and port of a URL, so two URLs with the same netloc have the same host; a link to
  another host is never enqueued.
\<close>

theorem domain_scoping:
  "(extract_links w st html_content = Inr links \<longrightarrow>
      (\<forall>l \<in> set links. same_netloc w (base_url st) l))
   \<and> (init w base respect = Inr st0 \<and> scrape_loop n w max_pages (0, st0) = (ex, page_count, st')
        \<longrightarrow> (\<forall>u \<in> set (queue st') \<union> visited_urls st'. same_netloc w base u))"
proof -
  have a: "\<forall>l \<in> set links. same_netloc w (base_url st) l"
    if "extract_links w st html_content = Inr links"
    using extract_links_same_netloc[OF that] by blast
  have b: "\<forall>u \<in> set (queue st') \<union> visited_urls st'. same_netloc w base u"
    if i: "init w base respect = Inr st0"
      and r: "scrape_loop n w max_pages (0, st0) = (ex, page_count, st')"
  proof -
    from init_fields[OF i] have "scoped w (snd (0::int, st0))"
      by (auto simp: scoped_def same_netloc_refl)
    then have "scoped w (snd (snd (scrape_loop n w max_pages (0, st0))))"
      using scrape_iteration_scoped by (rule scrape_loop_invariant[rotated])
    with r have s: "scoped w st'" by simp
    have "base_url (snd (snd (scrape_loop n w max_pages (0, st0)))) = base_url st0"
      by (rule scrape_loop_invariant[where I = "\<lambda>st. base_url st = base_url st0"])
         (simp_all add: scrape_iteration_base_url)
    with r init_fields(1)[OF i] have "base_url st' = base" by simp
    with s show ?thesis by (simp add: scoped_def)
  qed
  from a b show ?thesis by blast
qed

theorem domain_scoping_witness:
  "extract_links example_env example_scraper (Some seed_html) = Inr [''http://example.com/a/b.html'']
   \<and> same_netloc example_env seed_url ''http://example.com/a/b.html''
   \<and> queue (snd (snd (scrape_loop 1 example_env None (0, example_scraper))))
       = [''http://example.com/a/b.html'']
   \<and> normalize_url example_env example_scraper ''https://other.example/x''
       = Inr ''https://other.example/x''
   \<and> \<not> same_netloc example_env seed_url ''https://other.example/x''"
proof -
  have i: "init example_env seed_url True = Inr example_scraper"
    by code_simp
  have e: "extract_links example_env example_scraper (Some seed_html)
             = Inr [''http://example.com/a/b.html'']"
    by code_simp
  obtain ex page_count st where
    r: "scrape_loop 1 example_env None (0, example_scraper) = (ex, page_count, st)"
    by (cases "scrape_loop 1 example_env None (0, example_scraper)") auto
  have q: "queue (snd (snd (scrape_loop 1 example_env None (0, example_scraper))))
       = [''http://example.com/a/b.html'']"
    by code_simp
  have b: "base_url example_scraper = seed_url"
    by (simp add: example_scraper_def)
  have o: "normalize_url example_env example_scraper ''https://other.example/x''
       = Inr ''https://other.example/x''"
    by code_simp
  have n: "\<not> same_netloc example_env seed_url ''https://other.example/x''"
    by code_simp
  from domain_scoping[of example_env example_scraper "Some seed_html"
      "[''http://example.com/a/b.html'']" seed_url True example_scraper 1 None ex page_count st]
    i e r q b o n
  show ?thesis by simp
qed

subsection \<open>A robots file that could not be read\<close>

lemma get_page_content_robots:
  "get_page_content (w\<lparr>robot_parser_can_fetch := f\<rparr>) url st = get_page_content w url st"
  by (simp add: gpc_defs split: gpc_splits)

lemma extract_text_robots:
  "extract_text (w\<lparr>robot_parser_can_fetch := f\<rparr>) html_content = extract_text w html_content"
  by (simp add: extract_text_def split: option.split)

lemma save_to_csv_robots:
  "save_to_csv (w\<lparr>robot_parser_can_fetch := f\<rparr>) url content st = save_to_csv w url content st"
  by (simp add: save_to_csv_def)

lemma extract_links_loop_robots:
  "extract_links_loop (w\<lparr>robot_parser_can_fetch := f\<rparr>) st hrefs links
     = extract_links_loop w st hrefs links"
  by (induction hrefs arbitrary: links)
     (simp_all add: normalize_url_def is_same_domain_def split: sum.split)

lemma extract_links_robots:
  "extract_links (w\<lparr>robot_parser_can_fetch := f\<rparr>) st html_content = extract_links w st html_content"
  by (simp add: extract_links_def extract_links_loop_robots split: option.split)

lemma skip_url_not_completed:
  "\<not> robot_parser_completed st \<Longrightarrow> skip_url w st url = (url \<in> visited_urls st)"
  by (simp add: skip_url_def)

lemma scrape_iteration_robots:
  assumes "\<not> robot_parser_completed (snd s)"
  shows "scrape_iteration (w\<lparr>robot_parser_can_fetch := f\<rparr>) s = scrape_iteration w s"
  using assms
  by (simp add: scrape_iteration_def case_prod_beta Let_def skip_url_not_completed
      get_page_content_robots extract_text_robots save_to_csv_robots extract_links_robots
      split: list.split sum.split)

lemma scrape_loop_robots:
  "\<not> robot_parser_completed (snd s) \<Longrightarrow>
   scrape_loop n (w\<lparr>robot_parser_can_fetch := f\<rparr>) max_pages s = scrape_loop n w max_pages s"
proof (induction n arbitrary: s)
  case 0
  show ?case by simp
next
  case (Suc n)
  have it: "scrape_iteration (w\<lparr>robot_parser_can_fetch := f\<rparr>) s = scrape_iteration w s"
    using Suc.prems by (rule scrape_iteration_robots)
  have "\<not> robot_parser_completed (snd (page_count', snd (scrape_iteration w s)))" for page_count' :: int
    using Suc.prems by (simp add: scrape_iteration_robot_parser_completed)
  from Suc.IH[OF this] it show ?case
    by (simp add: case_prod_beta split: sum.split)
qed

text \<open>
  Claim C3. When reading the robots file raised in \<^verbatim>\<open>__init__\<close>, then in every state the
  crawl loop reaches \<^verbatim>\<open>robot_parser_completed\<close> is still false, the test of line 249
  skips a URL only when it is already visited, and the run is the run of a robots
  parser that answers true to every question: the answers of the parser are never
  used, so no URL is skipped on robots grounds.
\<close>

theorem robots_fail_open:
  assumes "\<not> robots_read_ok w" and "init w base respect = Inr st0"
    and "scrape_loop n w max_pages (0, st0) = (ex, page_count, st)"
  shows "\<not> robot_parser_completed st
    \<and> (\<forall>url. skip_url w st url = (url \<in> visited_urls st))
    \<and> scrape_loop n (w\<lparr>robot_parser_can_fetch := (\<lambda>url. True)\<rparr>) max_pages (0, st0)
        = (ex, page_count, st)"
proof -
  from init_fields(4)[OF assms(2)] assms(1) have c0: "\<not> robot_parser_completed st0"
    by simp
  have "robot_parser_completed (snd (snd (scrape_loop n w max_pages (0, st0))))
          = robot_parser_completed st0"
    by (rule scrape_loop_invariant[where I = "\<lambda>st. robot_parser_completed st = robot_parser_completed st0"])
       (simp_all add: scrape_iteration_robot_parser_completed)
  with assms(3) c0 have c: "\<not> robot_parser_completed st"
    by simp
  from c0 have "\<not> robot_parser_completed (snd (0::int, st0))"
    by simp
  from scrape_loop_robots[OF this] assms(3)
  have "scrape_loop n (w\<lparr>robot_parser_can_fetch := (\<lambda>url. True)\<rparr>) max_pages (0, st0)
        = (ex, page_count, st)"
    by simp
  with c show ?thesis
    by (simp add: skip_url_not_completed)
qed


theorem robots_fail_open_witness:
  "init robots_down_env seed_url True = Inr (example_scraper\<lparr>robot_parser_completed := False\<rparr>)
   \<and> \<not> can_fetch robots_down_env (example_scraper\<lparr>robot_parser_completed := False\<rparr>)
         ''http://example.com/a/b.html''
   \<and> fetched (trace (snd (snd (scrape_loop 4 robots_down_env None
         (0, example_scraper\<lparr>robot_parser_completed := False\<rparr>)))))
       = [seed_url, ''http://example.com/a/b.html'', ''http://example.com/docs/c.html'']
   \<and> scrape_loop 4 (robots_down_env\<lparr>robot_parser_can_fetch := (\<lambda>url. True)\<rparr>) None
         (0, example_scraper\<lparr>robot_parser_completed := False\<rparr>)
       = scrape_loop 4 robots_down_env None
         (0, example_scraper\<lparr>robot_parser_completed := False\<rparr>)"
proof -
  have d: "\<not> robots_read_ok robots_down_env"
    by code_simp
  have i: "init robots_down_env seed_url True
             = Inr (example_scraper\<lparr>robot_parser_completed := False\<rparr>)"
    by code_simp
  have c: "\<not> can_fetch robots_down_env (example_scraper\<lparr>robot_parser_completed := False\<rparr>)
         ''http://example.com/a/b.html''"
    by code_simp
  have f: "fetched (trace (snd (snd (scrape_loop 4 robots_down_env None
         (0, example_scraper\<lparr>robot_parser_completed := False\<rparr>)))))
       = [seed_url, ''http://example.com/a/b.html'', ''http://example.com/docs/c.html'']"
    by code_simp
  obtain ex page_count st where
    r: "scrape_loop 4 robots_down_env None
          (0, example_scraper\<lparr>robot_parser_completed := False\<rparr>) = (ex, page_count, st)"
    by (cases "scrape_loop 4 robots_down_env None
          (0, example_scraper\<lparr>robot_parser_completed := False\<rparr>)") auto
  from robots_fail_open[OF d i r] i c f r show ?thesis
    by simp
qed

subsection \<open>Release of the browser\<close>

text \<open>With a page budget the loop always leaves: a pass that skips its URL shortens the
  queue, and any other pass raises or adds one to \<^verbatim>\<open>page_count\<close>. So \<open>scrape\<close> returns for
  some number of iterations, whatever the site answers.\<close>

lemma scrape_iteration_skipped:
  "queue (snd s) = url # rest \<Longrightarrow> skip_url w (snd s) url \<Longrightarrow>
   scrape_iteration w s = (Inr (fst s), (snd s)\<lparr>queue := rest\<rparr>)"
  by (simp add: scrape_iteration_def case_prod_beta)

lemma scrape_iteration_counted:
  "queue (snd s) = url # rest \<Longrightarrow> \<not> skip_url w (snd s) url \<Longrightarrow>
   fst (scrape_iteration w s) = Inr page_count' \<Longrightarrow> page_count' = fst s + 1"
  by (simp add: scrape_iteration_def case_prod_beta Let_def split: sum.splits if_splits)

lemma scrape_loop_leaves_with_budget:
  "\<exists>n. fst (scrape_loop n w (Some m) s) \<noteq> Still_running"
proof -
  have "wf (measures [\<lambda>s. nat (m - fst s), \<lambda>s. length (queue (snd s))])"
    by simp
  then show ?thesis
  proof (induct s rule: wf_induct_rule)
    case (less s)
    show ?case
    proof (cases "loop_condition (Some m) s")
      case False
      then have "fst (scrape_loop 0 w (Some m) s) \<noteq> Still_running"
        by (simp add: loop_left_def)
      then show ?thesis by blast
    next
      case True
      then obtain url rest where q: "queue (snd s) = url # rest" and lt: "fst s < m"
        by (cases "queue (snd s)") (auto simp: loop_condition_def)
      show ?thesis
      proof (cases "fst (scrape_iteration w s)")
        case (Inl e)
        with True have "fst (scrape_loop (Suc 0) w (Some m) s) \<noteq> Still_running"
          by (simp add: case_prod_beta)
        then show ?thesis by blast
      next
        case (Inr page_count')
        let ?s' = "(page_count', snd (scrape_iteration w s))"
        have "(?s', s) \<in> measures [\<lambda>s. nat (m - fst s), \<lambda>s. length (queue (snd s))]"
        proof (cases "skip_url w (snd s) url")
          case True
          from scrape_iteration_skipped[OF q True] Inr q show ?thesis
            by simp
        next
          case False
          from scrape_iteration_counted[OF q False Inr] lt show ?thesis
            by simp
        qed
        from less[OF this] obtain n where "fst (scrape_loop n w (Some m) ?s') \<noteq> Still_running"
          by blast
        with True Inr have "fst (scrape_loop (Suc n) w (Some m) s) \<noteq> Still_running"
          by (simp add: case_prod_beta)
        then show ?thesis by blast
      qed
    qed
  qed
qed

lemma scrape_returns_with_budget: "\<exists>fuel result. scrape fuel w (Some m) st = Some result"
proof -
  obtain n where "fst (scrape_loop n w (Some m) (0, st)) \<noteq> Still_running"
    using scrape_loop_leaves_with_budget by blast
  then have "scrape n w (Some m) st \<noteq> None"
    by (simp add: scrape_def case_prod_beta)
  then show ?thesis by blast
qed

text \<open>
  Claim C7. Whenever the crawl loop is left (the frontier is exhausted, the page budget
  is reached, or an error leaves the loop), \<^verbatim>\<open>scrape\<close> ends with the \<^verbatim>\<open>finally\<close> block: up
  to the exit no \<^verbatim>\<open>driver.quit()\<close> has been performed, \<^verbatim>\<open>self.driver\<close> is set exactly when a
  browser was started during the run, and the run ends with one \<^verbatim>\<open>driver.quit()\<close> as its
  last effect if a browser was started, and with none otherwise. So the trace of the
  whole run holds exactly one release of a browser that was created, on every exit
  path. (Without a page budget a run need not leave the loop; with one it does, by
  \<open>scrape_returns_with_budget\<close>.)
\<close>

theorem driver_released_once:
  assumes "init w base respect = Inr st0"
    and "scrape_loop fuel w max_pages (0, st0) = (ex, page_count, st1)"
    and "ex \<noteq> Still_running"
  shows "Driver_quit \<notin> set (trace st1)
    \<and> (driver st1 \<noteq> None) = (Webdriver_start True \<in> set (trace st1))
    \<and> scrape fuel w max_pages st0
        = Some (ex, page_count,
            if Webdriver_start True \<in> set (trace st1)
            then st1\<lparr>trace := trace st1 @ [Driver_quit]\<rparr> else st1)
    \<and> (\<exists>st. scrape fuel w max_pages st0 = Some (ex, page_count, st)
          \<and> count_list (trace st) Driver_quit
              = (if Webdriver_start True \<in> set (trace st) then 1 else 0)
          \<and> (Webdriver_start True \<in> set (trace st) \<longrightarrow> last (trace st) = Driver_quit))"
proof -
  have "driver_invariant (snd (0::int, st0))"
    using init_fields[OF assms(1)] by (simp add: driver_invariant_def)
  then have "driver_invariant (snd (snd (scrape_loop fuel w max_pages (0, st0))))"
    using scrape_iteration_driver_invariant by (rule scrape_loop_invariant[rotated])
  with assms(2) have inv: "driver_invariant st1"
    by simp
  then have nq: "Driver_quit \<notin> set (trace st1)"
    and dr: "(driver st1 \<noteq> None) = (Webdriver_start True \<in> set (trace st1))"
    by (simp_all add: driver_invariant_def)
  let ?st = "if Webdriver_start True \<in> set (trace st1)
             then st1\<lparr>trace := trace st1 @ [Driver_quit]\<rparr> else st1"
  from assms(2,3) dr have sc: "scrape fuel w max_pages st0 = Some (ex, page_count, ?st)"
    by (simp add: scrape_def)
  from nq have c0: "count_list (trace st1) Driver_quit = 0"
    by simp
  have "count_list (trace ?st) Driver_quit
          = (if Webdriver_start True \<in> set (trace ?st) then 1 else 0)"
    using c0 by simp
  moreover have "Webdriver_start True \<in> set (trace ?st) \<longrightarrow> last (trace ?st) = Driver_quit"
    by simp
  ultimately have "\<exists>st. scrape fuel w max_pages st0 = Some (ex, page_count, st)
          \<and> count_list (trace st) Driver_quit
              = (if Webdriver_start True \<in> set (trace st) then 1 else 0)
          \<and> (Webdriver_start True \<in> set (trace st) \<longrightarrow> last (trace st) = Driver_quit)"
    using sc by blast
  with nq dr sc show ?thesis
    by blast
qed

text \<open>Four runs, one per way out: the frontier is exhausted with a browser running, the
  budget is reached with a browser running, an error leaves the loop with a browser
  running, and the frontier is exhausted without any browser.\<close>

theorem driver_released_once_witness:
  "scrape 5 render_env None example_scraper
     = Some (Frontier_exhausted, 3,
         example_scraper\<lparr>
           visited_urls := {seed_url, ''http://example.com/a/b.html'',
                            ''http://example.com/docs/c.html''},
           queue := [], driver := Some Chrome, tried_selenium := True,
           trace := [Csv_row ''URL'' ''Content'', Http_get seed_url, Webdriver_start True,
                     Driver_get seed_url, Csv_row seed_url ''b x'',
                     Http_get ''http://example.com/a/b.html'',
                     Csv_row ''http://example.com/a/b.html'' ''Page b c up'',
                     Http_get ''http://example.com/docs/c.html'', Driver_quit]\<rparr>)
   \<and> scrape 5 render_env (Some 1) example_scraper
     = Some (Budget_reached, 1,
         example_scraper\<lparr>
           visited_urls := {seed_url}, queue := [''http://example.com/a/b.html''],
           driver := Some Chrome, tried_selenium := True,
           trace := [Csv_row ''URL'' ''Content'', Http_get seed_url, Webdriver_start True,
                     Driver_get seed_url, Csv_row seed_url ''b x'', Driver_quit]\<rparr>)
   \<and> scrape 3 disk_full_env None example_scraper
     = Some (Error_propagated OSError, 0,
         example_scraper\<lparr>visited_urls := {seed_url}, queue := [], driver := Some Chrome,
           tried_selenium := True,
           trace := [Csv_row ''URL'' ''Content'', Http_get seed_url, Webdriver_start True,
                     Driver_get seed_url, Driver_quit]\<rparr>)
   \<and> scrape 5 example_env None example_scraper
     = Some (Frontier_exhausted, 3,
         example_scraper\<lparr>
           visited_urls := {seed_url, ''http://example.com/a/b.html'',
                            ''http://example.com/docs/c.html''},
           queue := [],
           trace := [Csv_row ''URL'' ''Content'', Http_get seed_url,
                     Csv_row seed_url ''b x'',
                     Http_get ''http://example.com/a/b.html'',
                     Csv_row ''http://example.com/a/b.html'' ''Page b c up'',
                     Http_get ''http://example.com/docs/c.html'']\<rparr>)"
proof -
  have i1: "init render_env seed_url True = Inr example_scraper"
    by code_simp
  have l1: "scrape_loop 5 render_env None (0, example_scraper)
     = (Frontier_exhausted, 3,
         example_scraper\<lparr>
           visited_urls := {seed_url, ''http://example.com/a/b.html'',
                            ''http://example.com/docs/c.html''},
           queue := [], driver := Some Chrome, tried_selenium := True,
           trace := [Csv_row ''URL'' ''Content'', Http_get seed_url, Webdriver_start True,
                     Driver_get seed_url, Csv_row seed_url ''b x'',
                     Http_get ''http://example.com/a/b.html'',
                     Csv_row ''http://example.com/a/b.html'' ''Page b c up'',
                     Http_get ''http://example.com/docs/c.html'']\<rparr>)"
    by code_simp
  have l2: "scrape_loop 5 render_env (Some 1) (0, example_scraper)
     = (Budget_reached, 1,
         example_scraper\<lparr>
           visited_urls := {seed_url}, queue := [''http://example.com/a/b.html''],
           driver := Some Chrome, tried_selenium := True,
           trace := [Csv_row ''URL'' ''Content'', Http_get seed_url, Webdriver_start True,
                     Driver_get seed_url, Csv_row seed_url ''b x'']\<rparr>)"
    by code_simp
  have i3: "init disk_full_env seed_url True = Inr example_scraper"
    by code_simp
  have l3: "scrape_loop 3 disk_full_env None (0, example_scraper)
     = (Error_propagated OSError, 0,
         example_scraper\<lparr>visited_urls := {seed_url}, queue := [], driver := Some Chrome,
           tried_selenium := True,
           trace := [Csv_row ''URL'' ''Content'', Http_get seed_url, Webdriver_start True,
                     Driver_get seed_url]\<rparr>)"
    by code_simp
  have i4: "init example_env seed_url True = Inr example_scraper"
    by code_simp
  have l4: "scrape_loop 5 example_env None (0, example_scraper)
     = (Frontier_exhausted, 3,
         example_scraper\<lparr>
           visited_urls := {seed_url, ''http://example.com/a/b.html'',
                            ''http://example.com/docs/c.html''},
           queue := [],
           trace := [Csv_row ''URL'' ''Content'', Http_get seed_url,
                     Csv_row seed_url ''b x'',
                     Http_get ''http://example.com/a/b.html'',
                     Csv_row ''http://example.com/a/b.html'' ''Page b c up'',
                     Http_get ''http://example.com/docs/c.html'']\<rparr>)"
    by code_simp
  have a: "scrape 5 render_env None example_scraper
     = Some (Frontier_exhausted, 3,
         example_scraper\<lparr>
           visited_urls := {seed_url, ''http://example.com/a/b.html'',
                            ''http://example.com/docs/c.html''},
           queue := [], driver := Some Chrome, tried_selenium := True,
           trace := [Csv_row ''URL'' ''Content'', Http_get seed_url, Webdriver_start True,
                     Driver_get seed_url, Csv_row seed_url ''b x'',
                     Http_get ''http://example.com/a/b.html'',
                     Csv_row ''http://example.com/a/b.html'' ''Page b c up'',
                     Http_get ''http://example.com/docs/c.html'', Driver_quit]\<rparr>)"
    using driver_released_once[OF i1 l1] by simp
  have b: "scrape 5 render_env (Some 1) example_scraper
     = Some (Budget_reached, 1,
         example_scraper\<lparr>
           visited_urls := {seed_url}, queue := [''http://example.com/a/b.html''],
           driver := Some Chrome, tried_selenium := True,
           trace := [Csv_row ''URL'' ''Content'', Http_get seed_url, Webdriver_start True,
                     Driver_get seed_url, Csv_row seed_url ''b x'', Driver_quit]\<rparr>)"
    using driver_released_once[OF i1 l2] by simp
  have c: "scrape 3 disk_full_env None example_scraper
     = Some (Error_propagated OSError, 0,
         example_scraper\<lparr>visited_urls := {seed_url}, queue := [], driver := Some Chrome,
           tried_selenium := True,
           trace := [Csv_row ''URL'' ''Content'', Http_get seed_url, Webdriver_start True,
                     Driver_get seed_url, Driver_quit]\<rparr>)"
    using driver_released_once[OF i3 l3] by simp
  have d: "scrape 5 example_env None example_scraper
     = Some (Frontier_exhausted, 3,
         example_scraper\<lparr>
           visited_urls := {seed_url, ''http://example.com/a/b.html'',
                            ''http://example.com/docs/c.html''},
           queue := [],
           trace := [Csv_row ''URL'' ''Content'', Http_get seed_url,
                     Csv_row seed_url ''b x'',
                     Http_get ''http://example.com/a/b.html'',
                     Csv_row ''http://example.com/a/b.html'' ''Page b c up'',
                     Http_get ''http://example.com/docs/c.html'']\<rparr>)"
    using driver_released_once[OF i4 l4] by simp
  from a b c d show ?thesis
    by blast
qed

subsection \<open>The page counter\<close>

text \<open>One pass of the loop over the URL at the head of the queue: a skipped URL leaves
  \<^verbatim>\<open>page_count\<close> as it is; a URL that is not skipped adds one unless an error leaves the
  pass, also when the fetch returns \<^verbatim>\<open>None\<close>, and then nothing is written.\<close>

lemma scrape_iteration_page_count:
  assumes "queue st = url # rest"
  shows "(skip_url w (st\<lparr>queue := rest\<rparr>) url \<longrightarrow>
            scrape_iteration w (page_count, st) = (Inr page_count, st\<lparr>queue := rest\<rparr>))
    \<and> (\<not> skip_url w (st\<lparr>queue := rest\<rparr>) url \<longrightarrow>
          (case fst (scrape_iteration w (page_count, st)) of
             Inl e \<Rightarrow> True
           | Inr page_count' \<Rightarrow> page_count' = page_count + 1))
    \<and> (\<not> skip_url w (st\<lparr>queue := rest\<rparr>) url
         \<and> fst (get_page_content w url
                 (st\<lparr>queue := rest, visited_urls := insert url (visited_urls st)\<rparr>)) = Inr None \<longrightarrow>
          scrape_iteration w (page_count, st)
            = (Inr (page_count + 1),
               snd (get_page_content w url
                 (st\<lparr>queue := rest, visited_urls := insert url (visited_urls st)\<rparr>))))"
  using assms
  by (simp add: scrape_iteration_def case_prod_beta Let_def split: sum.split)

lemma rows_append: "rows (xs @ ys) = rows xs + rows ys"
  by (induction xs rule: rows.induct) auto

lemma get_page_content_rows: "rows (trace (snd (get_page_content w url st))) = rows (trace st)"
  by (simp add: gpc_defs rows_append split: gpc_splits)

lemma scrape_iteration_rows:
  "queue (snd s) = url # rest \<Longrightarrow>
   rows (trace (snd (scrape_iteration w s)))
     \<le> rows (trace (snd s)) + (if skip_url w (snd s) url then 0 else 1)"
  by (simp add: iteration_defs get_page_content_rows enqueue_links_fields rows_append
      split: iteration_splits)

lemma scrape_iteration_raises_after_fetch:
  "queue (snd s) = url # rest \<Longrightarrow> fst (scrape_iteration w s) = Inl e \<Longrightarrow>
   \<not> skip_url w (snd s) url"
  using scrape_iteration_skipped[of s url rest w] by auto

lemma scrape_iteration_counting:
  assumes inv: "counting_invariant max_pages s" and c: "loop_condition max_pages s"
    and r: "fst (scrape_iteration w s) = Inr page_count'"
  shows "counting_invariant max_pages (page_count', snd (scrape_iteration w s))"
proof -
  from c obtain url rest where q: "queue (snd s) = url # rest"
    by (cases "queue (snd s)") (auto simp: loop_condition_def)
  show ?thesis
  proof (cases "skip_url w (snd s) url")
    case True
    from scrape_iteration_skipped[OF q True] r have "page_count' = fst s"
      by simp
    with inv q True scrape_iteration_rows[OF q, of w] show ?thesis
      by (simp add: counting_invariant_def scrape_iteration_fetched split: option.splits)
  next
    case False
    from scrape_iteration_counted[OF q False r] have p: "page_count' = fst s + 1" .
    from c have "\<forall>m. max_pages = Some m \<longrightarrow> fst s < m"
      by (auto simp: loop_condition_def)
    with inv q False p scrape_iteration_rows[OF q, of w] show ?thesis
      by (auto simp: counting_invariant_def scrape_iteration_fetched split: option.splits)
  qed
qed

lemma scrape_loop_counting:
  assumes "counting_invariant max_pages s"
    and "scrape_loop n w max_pages s = (ex, page_count, st)"
  shows "int (length (fetched (trace st)))
           = (case ex of Error_propagated e \<Rightarrow> page_count + 1 | _ \<Rightarrow> page_count)
    \<and> rows (trace st) \<le> Suc (length (fetched (trace st)))
    \<and> (\<forall>m. max_pages = Some m \<and> 0 \<le> m \<longrightarrow> int (length (fetched (trace st))) \<le> m)
    \<and> (ex = Budget_reached \<longrightarrow> queue st \<noteq> [] \<and> (\<exists>m. max_pages = Some m \<and> m \<le> page_count))"
  using assms
proof (induction n arbitrary: s)
  case 0
  then show ?case
    by (auto simp: counting_invariant_def loop_left_def loop_condition_def
        split: if_splits option.splits)
next
  case (Suc n)
  show ?case
  proof (cases "loop_condition max_pages s")
    case False
    with Suc.prems show ?thesis
      by (auto simp: counting_invariant_def loop_left_def loop_condition_def
          split: if_splits option.splits)
  next
    case True
    then obtain url rest where q: "queue (snd s) = url # rest"
      by (cases "queue (snd s)") (auto simp: loop_condition_def)
    from True have lt: "\<forall>m. max_pages = Some m \<longrightarrow> fst s < m"
      by (auto simp: loop_condition_def)
    show ?thesis
    proof (cases "fst (scrape_iteration w s)")
      case (Inl e)
      with True Suc.prems(2) have res: "ex = Error_propagated e" "page_count = fst s"
        "st = snd (scrape_iteration w s)"
        by (simp_all add: case_prod_beta)
      from scrape_iteration_raises_after_fetch[OF q Inl] have ns: "\<not> skip_url w (snd s) url" .
      from Suc.prems(1) q ns lt scrape_iteration_rows[OF q, of w] res show ?thesis
        by (auto simp: counting_invariant_def scrape_iteration_fetched)
    next
      case (Inr page_count')
      from scrape_iteration_counting[OF Suc.prems(1) True Inr]
      have inv': "counting_invariant max_pages (page_count', snd (scrape_iteration w s))" .
      from True Inr Suc.prems(2)
      have "scrape_loop n w max_pages (page_count', snd (scrape_iteration w s))
              = (ex, page_count, st)"
        by (simp add: case_prod_beta)
      from Suc.IH[OF inv' this] show ?thesis .
    qed
  qed
qed

text \<open>
  Claim C10. In every state the crawl loop reaches from a freshly built scraper, under
  the guard \<^verbatim>\<open>page_count < max_pages\<close> of line 244:
  \<^item> \<^verbatim>\<open>page_count\<close> is the number of URLs the fetch step was run on (one more was fetched
    when an error left the loop before line 271), whatever the fetches returned, so
    skipped URLs are not counted and failed fetches are;
  \<^item> the rows written to the output file, the header apart, are at most that many, and
    can be fewer;
  \<^item> with a budget that is not negative the number of fetched URLs never exceeds the
    budget, and when the loop is left because the budget is reached, with URLs still
    pending, \<^verbatim>\<open>page_count\<close> equals the budget;
  \<^item> the next pass leaves \<^verbatim>\<open>page_count\<close> as it is when it skips its URL (already visited,
    or disallowed by the robots file), and adds one when the fetch returns \<^verbatim>\<open>None\<close>,
    writing nothing.
\<close>

theorem budget_counts_attempts:
  assumes "init w base respect = Inr st0"
    and "scrape_loop n w max_pages (0, st0) = (ex, page_count, st)"
  shows "int (length (fetched (trace st)))
           = (case ex of Error_propagated e \<Rightarrow> page_count + 1 | _ \<Rightarrow> page_count)
    \<and> rows (trace st) \<le> Suc (length (fetched (trace st)))
    \<and> (\<forall>m. max_pages = Some m \<and> 0 \<le> m \<longrightarrow> int (length (fetched (trace st))) \<le> m)
    \<and> (ex = Budget_reached \<longrightarrow>
         queue st \<noteq> []
         \<and> (\<exists>m. max_pages = Some m \<and> m \<le> page_count \<and> (0 \<le> m \<longrightarrow> page_count = m)))
    \<and> (\<forall>url rest. queue st = url # rest \<longrightarrow>
         (skip_url w (st\<lparr>queue := rest\<rparr>) url \<longrightarrow>
            scrape_iteration w (page_count, st) = (Inr page_count, st\<lparr>queue := rest\<rparr>))
         \<and> (\<not> skip_url w (st\<lparr>queue := rest\<rparr>) url \<longrightarrow>
              (case fst (scrape_iteration w (page_count, st)) of
                 Inl e \<Rightarrow> True
               | Inr page_count' \<Rightarrow> page_count' = page_count + 1))
         \<and> (\<not> skip_url w (st\<lparr>queue := rest\<rparr>) url
              \<and> fst (get_page_content w url
                      (st\<lparr>queue := rest, visited_urls := insert url (visited_urls st)\<rparr>))
                  = Inr None \<longrightarrow>
               scrape_iteration w (page_count, st)
                 = (Inr (page_count + 1),
                    snd (get_page_content w url
                      (st\<lparr>queue := rest, visited_urls := insert url (visited_urls st)\<rparr>)))))"
proof -
  have "counting_invariant max_pages (0, st0)"
    using init_fields[OF assms(1)] by (simp add: counting_invariant_def split: option.split)
  from scrape_loop_counting[OF this assms(2)]
  have a: "int (length (fetched (trace st)))
           = (case ex of Error_propagated e \<Rightarrow> page_count + 1 | _ \<Rightarrow> page_count)"
    and b: "rows (trace st) \<le> Suc (length (fetched (trace st)))"
    and c: "\<forall>m. max_pages = Some m \<and> 0 \<le> m \<longrightarrow> int (length (fetched (trace st))) \<le> m"
    and d: "ex = Budget_reached \<longrightarrow> queue st \<noteq> [] \<and> (\<exists>m. max_pages = Some m \<and> m \<le> page_count)"
    by blast+
  have d': "ex = Budget_reached \<longrightarrow>
         queue st \<noteq> []
         \<and> (\<exists>m. max_pages = Some m \<and> m \<le> page_count \<and> (0 \<le> m \<longrightarrow> page_count = m))"
  proof
    assume e: "ex = Budget_reached"
    with d obtain m where m: "queue st \<noteq> []" "max_pages = Some m" "m \<le> page_count"
      by blast
    from e a have "int (length (fetched (trace st))) = page_count"
      by simp
    with c m have "0 \<le> m \<longrightarrow> page_count = m"
      by auto
    with m show "queue st \<noteq> []
         \<and> (\<exists>m. max_pages = Some m \<and> m \<le> page_count \<and> (0 \<le> m \<longrightarrow> page_count = m))"
      by blast
  qed
  have e: "\<forall>url rest. queue st = url # rest \<longrightarrow>
         (skip_url w (st\<lparr>queue := rest\<rparr>) url \<longrightarrow>
            scrape_iteration w (page_count, st) = (Inr page_count, st\<lparr>queue := rest\<rparr>))
         \<and> (\<not> skip_url w (st\<lparr>queue := rest\<rparr>) url \<longrightarrow>
              (case fst (scrape_iteration w (page_count, st)) of
                 Inl e \<Rightarrow> True
               | Inr page_count' \<Rightarrow> page_count' = page_count + 1))
         \<and> (\<not> skip_url w (st\<lparr>queue := rest\<rparr>) url
              \<and> fst (get_page_content w url
                      (st\<lparr>queue := rest, visited_urls := insert url (visited_urls st)\<rparr>))
                  = Inr None \<longrightarrow>
               scrape_iteration w (page_count, st)
                 = (Inr (page_count + 1),
                    snd (get_page_content w url
                      (st\<lparr>queue := rest, visited_urls := insert url (visited_urls st)\<rparr>))))"
    using scrape_iteration_page_count by blast
  from a b c d' e show ?thesis
    by blast
qed

text \<open>The seed is fetched and written; the pages \<^verbatim>\<open>/p1\<close> and \<^verbatim>\<open>/p2\<close> answer 404 and use up
  the rest of a budget of three, with \<^verbatim>\<open>/p3\<close> still pending and one page written. A
  budget of two stops the same crawl one page earlier, and a budget of one is used up
  by a seed that answers 404.\<close>

theorem budget_counts_attempts_witness:
  "scrape_loop 5 budget_env (Some 3) (0, example_scraper)
     = (Budget_reached, 3,
         example_scraper\<lparr>
           visited_urls := {seed_url, ''http://example.com/p1'', ''http://example.com/p2''},
           queue := [''http://example.com/p3''],
           trace := [Csv_row ''URL'' ''Content'', Http_get seed_url, Csv_row seed_url ''b x'',
                     Http_get ''http://example.com/p1'', Http_get ''http://example.com/p2'']\<rparr>)
   \<and> length (fetched [Csv_row ''URL'' ''Content'', Http_get seed_url, Csv_row seed_url ''b x'',
                     Http_get ''http://example.com/p1'', Http_get ''http://example.com/p2'']) = 3
   \<and> rows [Csv_row ''URL'' ''Content'', Http_get seed_url, Csv_row seed_url ''b x'',
                     Http_get ''http://example.com/p1'', Http_get ''http://example.com/p2''] = 2
   \<and> scrape_loop 5 budget_env (Some 2) (0, example_scraper)
     = (Budget_reached, 2,
         example_scraper\<lparr>
           visited_urls := {seed_url, ''http://example.com/p1''},
           queue := [''http://example.com/p2'', ''http://example.com/p3''],
           trace := [Csv_row ''URL'' ''Content'', Http_get seed_url, Csv_row seed_url ''b x'',
                     Http_get ''http://example.com/p1'']\<rparr>)
   \<and> scrape_loop 5 not_found_env (Some 1) (0, example_scraper)
     = (Frontier_exhausted, 1,
         example_scraper\<lparr>queue := [], visited_urls := {seed_url},
           trace := [Csv_row ''URL'' ''Content'', Http_get seed_url]\<rparr>)
   \<and> scrape_iteration example_env (1, example_scraper\<lparr>visited_urls := {seed_url}\<rparr>)
     = (Inr 1, example_scraper\<lparr>visited_urls := {seed_url}, queue := []\<rparr>)"
proof -
  have i: "init budget_env seed_url True = Inr example_scraper"
    by code_simp
  have l3: "scrape_loop 5 budget_env (Some 3) (0, example_scraper)
     = (Budget_reached, 3,
         example_scraper\<lparr>
           visited_urls := {seed_url, ''http://example.com/p1'', ''http://example.com/p2''},
           queue := [''http://example.com/p3''],
           trace := [Csv_row ''URL'' ''Content'', Http_get seed_url, Csv_row seed_url ''b x'',
                     Http_get ''http://example.com/p1'', Http_get ''http://example.com/p2'']\<rparr>)"
    by code_simp
  have l2: "scrape_loop 5 budget_env (Some 2) (0, example_scraper)
     = (Budget_reached, 2,
         example_scraper\<lparr>
           visited_urls := {seed_url, ''http://example.com/p1''},
           queue := [''http://example.com/p2'', ''http://example.com/p3''],
           trace := [Csv_row ''URL'' ''Content'', Http_get seed_url, Csv_row seed_url ''b x'',
                     Http_get ''http://example.com/p1'']\<rparr>)"
    by code_simp
  have i1: "init not_found_env seed_url True = Inr example_scraper"
    by code_simp
  have l1: "scrape_loop 5 not_found_env (Some 1) (0, example_scraper)
     = (Frontier_exhausted, 1,
         example_scraper\<lparr>queue := [], visited_urls := {seed_url},
           trace := [Csv_row ''URL'' ''Content'', Http_get seed_url]\<rparr>)"
    by code_simp
  have f: "length (fetched [Csv_row ''URL'' ''Content'', Http_get seed_url, Csv_row seed_url ''b x'',
                     Http_get ''http://example.com/p1'', Http_get ''http://example.com/p2'']) = 3"
    using budget_counts_attempts[OF i l3] by simp
  have r: "rows [Csv_row ''URL'' ''Content'', Http_get seed_url, Csv_row seed_url ''b x'',
                     Http_get ''http://example.com/p1'', Http_get ''http://example.com/p2''] = 2"
    by simp
  have s': "skip_url example_env (example_scraper\<lparr>visited_urls := {seed_url}, queue := []\<rparr>) seed_url"
    by code_simp
  have c: "scrape_iteration example_env (1, example_scraper\<lparr>visited_urls := {seed_url}\<rparr>)
     = (Inr 1, example_scraper\<lparr>visited_urls := {seed_url}, queue := []\<rparr>)"
    using s' by (simp add: scrape_iteration_def example_scraper_def)
  note budget_counts_attempts[OF i l2] budget_counts_attempts[OF i1 l1]
  with l3 f r l2 l1 c show ?thesis
    by blast
qed

end
